theory Spec2Isabelle
  imports Main "HOL-Library.Sublist"
begin

section \<open>The Go library functions the server calls\<close>

text \<open>
  Go strings are byte sequences; they are modelled as \<open>string\<close> (a list of 8-bit
  \<open>char\<close>s). The server calls a handful of functions of the Go standard library
  (\<open>strings.TrimSpace\<close>, \<open>strings.Split\<close>, \<open>strings.SplitN\<close>, \<open>strconv.Atoi\<close>,
  \<open>bufio.Reader.ReadString\<close>, \<open>io.ReadFull\<close>, \<open>fmt.Sprintf\<close>); this section
  models them after their documented behaviour, on a 64-bit platform (\<open>int\<close> is 64 bits).
\<close>

abbreviation CR :: char where "CR \<equiv> CHR 0x0D"
abbreviation LF :: char where "LF \<equiv> CHR 0x0A"

subsection \<open>strings.TrimSpace\<close>

text \<open>
  \<open>strings.TrimSpace\<close> removes all leading and trailing white space "as defined by
  Unicode" (\<open>unicode.IsSpace\<close>). The six ASCII white-space bytes are
  \<open>\t \n \v \f \r\<close> and space.
\<close>

definition asciiSpace :: "char \<Rightarrow> bool" where
  "asciiSpace c \<longleftrightarrow>
     c = CHR 0x09 \<or> c = CHR 0x0A \<or> c = CHR 0x0B \<or> c = CHR 0x0C \<or> c = CHR 0x0D \<or> c = CHR 0x20"

text \<open>
  The UTF-8 encodings of the runes for which \<open>unicode.IsSpace\<close> holds: the ASCII ones,
  U+0085, U+00A0, U+1680, U+2000 to U+200A, U+2028, U+2029, U+202F, U+205F and U+3000.
\<close>

definition spaceRunes :: "string list" where
  "spaceRunes =
    [[CHR 0x09], [CHR 0x0A], [CHR 0x0B], [CHR 0x0C], [CHR 0x0D], [CHR 0x20],
     [CHR 0xC2, CHR 0x85], [CHR 0xC2, CHR 0xA0],
     [CHR 0xE1, CHR 0x9A, CHR 0x80],
     [CHR 0xE2, CHR 0x80, CHR 0x80], [CHR 0xE2, CHR 0x80, CHR 0x81],
     [CHR 0xE2, CHR 0x80, CHR 0x82], [CHR 0xE2, CHR 0x80, CHR 0x83],
     [CHR 0xE2, CHR 0x80, CHR 0x84], [CHR 0xE2, CHR 0x80, CHR 0x85],
     [CHR 0xE2, CHR 0x80, CHR 0x86], [CHR 0xE2, CHR 0x80, CHR 0x87],
     [CHR 0xE2, CHR 0x80, CHR 0x88], [CHR 0xE2, CHR 0x80, CHR 0x89],
     [CHR 0xE2, CHR 0x80, CHR 0x8A],
     [CHR 0xE2, CHR 0x80, CHR 0xA8], [CHR 0xE2, CHR 0x80, CHR 0xA9],
     [CHR 0xE2, CHR 0x80, CHR 0xAF],
     [CHR 0xE2, CHR 0x81, CHR 0x9F],
     [CHR 0xE3, CHR 0x80, CHR 0x80]]"

text \<open>
  The number of bytes of the white-space rune a string starts with (ends with), or 0 when
  the first (last) rune is not white space. A byte sequence that is not valid UTF-8 decodes
  to U+FFFD, which is not white space.
\<close>

definition leadingSpace :: "string \<Rightarrow> nat" where
  "leadingSpace s = (case find (\<lambda>e. prefix e s) spaceRunes of None \<Rightarrow> 0 | Some e \<Rightarrow> length e)"

definition trailingSpace :: "string \<Rightarrow> nat" where
  "trailingSpace s = (case find (\<lambda>e. suffix e s) spaceRunes of None \<Rightarrow> 0 | Some e \<Rightarrow> length e)"

lemma leadingSpace_le: "leadingSpace s \<le> length s"
  by (auto simp: leadingSpace_def find_Some_iff prefix_length_le split: option.splits)

lemma trailingSpace_le: "trailingSpace s \<le> length s"
  by (auto simp: trailingSpace_def find_Some_iff suffix_length_le split: option.splits)

function TrimLeft :: "string \<Rightarrow> string" where
  "TrimLeft s = (if leadingSpace s = 0 then s else TrimLeft (drop (leadingSpace s) s))"
  by pat_completeness auto
termination
proof (relation "measure length")
  fix s :: string
  assume "leadingSpace s \<noteq> 0"
  with leadingSpace_le [of s] show "(drop (leadingSpace s) s, s) \<in> measure length"
    by (cases s) auto
qed simp

function TrimRight :: "string \<Rightarrow> string" where
  "TrimRight s = (if trailingSpace s = 0 then s else TrimRight (take (length s - trailingSpace s) s))"
  by pat_completeness auto
termination
proof (relation "measure length")
  fix s :: string
  assume "trailingSpace s \<noteq> 0"
  with trailingSpace_le [of s] show "(take (length s - trailingSpace s) s, s) \<in> measure length"
    by (cases s) auto
qed simp

declare TrimLeft.simps [simp del] TrimRight.simps [simp del]

definition TrimSpace :: "string \<Rightarrow> string" where
  "TrimSpace s = TrimRight (TrimLeft s)"

subsection \<open>strings.Index, strings.Count, strings.Split and strings.SplitN\<close>

text \<open>
  \<open>Index s substr\<close> is the byte index of the first instance of \<open>substr\<close> in \<open>s\<close>
  (Go returns -1 where the model returns \<open>None\<close>).
\<close>

fun Index :: "string \<Rightarrow> string \<Rightarrow> nat option" where
  "Index [] substr = (if substr = [] then Some 0 else None)"
| "Index (c # cs) substr =
     (if prefix substr (c # cs) then Some 0 else map_option Suc (Index cs substr))"

lemma Index_bound: "Index s substr = Some i \<Longrightarrow> i + length substr \<le> length s"
proof (induction s arbitrary: i)
  case Nil
  then show ?case by (simp split: if_splits)
next
  case (Cons c cs)
  then show ?case
    by (auto simp: prefix_length_le split: if_splits dest: prefix_length_le)
qed

text \<open>
  \<open>Count s substr\<close> is the number of non-overlapping instances of a non-empty \<open>substr\<close>
  in \<open>s\<close>. Both separators the server passes are non-empty constants; for the empty
  separator Go counts runes and explodes the string, which is not modelled (the
  definition gives 0 there, only to be total).
\<close>

function Count :: "string \<Rightarrow> string \<Rightarrow> nat" where
  "Count s substr =
     (if substr = [] then 0
      else case Index s substr of
             None \<Rightarrow> 0
           | Some i \<Rightarrow> Suc (Count (drop (i + length substr) s) substr))"
  by pat_completeness auto
termination
proof (relation "measure (\<lambda>(s, substr). length s)")
  fix s substr :: string and i
  assume "substr \<noteq> []" "Index s substr = Some i"
  then show "((drop (i + length substr) s, substr), (s, substr)) \<in> measure (\<lambda>(s, substr). length s)"
    using Index_bound [of s substr i] by (cases substr) auto
qed simp

declare Count.simps [simp del]

text \<open>
  The loop of Go's \<open>genSplit\<close>: at most \<open>n\<close> cuts at successive instances of \<open>sep\<close>,
  then the remainder as the last element.
\<close>

fun genSplit :: "string \<Rightarrow> string \<Rightarrow> nat \<Rightarrow> string list" where
  "genSplit s sep 0 = [s]"
| "genSplit s sep (Suc n) =
     (case Index s sep of
        None \<Rightarrow> [s]
      | Some m \<Rightarrow> take m s # genSplit (drop (m + length sep) s) sep n)"

text \<open>\<open>strings.Split(s, sep)\<close>: as many pieces as \<open>Count(s, sep) + 1\<close>.\<close>

definition Split :: "string \<Rightarrow> string \<Rightarrow> string list" where
  "Split s sep = genSplit s sep (Count s sep)"

text \<open>
  \<open>strings.SplitN(s, sep, n)\<close> for \<open>n > 0\<close>: at most \<open>n\<close> pieces, and no more than
  \<open>len(s) + 1\<close>; the last piece is the unsplit remainder.
\<close>

definition SplitN :: "string \<Rightarrow> string \<Rightarrow> nat \<Rightarrow> string list" where
  "SplitN s sep n = genSplit s sep (min n (length s + 1) - 1)"

subsection \<open>strconv.Atoi\<close>

text \<open>
  \<open>strconv.Atoi\<close> accepts an optional sign \<open>+\<close> or \<open>-\<close> followed by one or more
  decimal digits whose value fits a 64-bit signed integer, and fails on anything else.
\<close>

definition isDigit :: "char \<Rightarrow> bool" where
  "isDigit c \<longleftrightarrow> (48::nat) \<le> of_char c \<and> (of_char c :: nat) \<le> 57"

definition digitsValue :: "string \<Rightarrow> int" where
  "digitsValue ds = foldl (\<lambda>n c. n * 10 + (of_char c - 48)) 0 ds"

definition Atoi :: "string \<Rightarrow> int option" where
  "Atoi s =
     (let neg = (s \<noteq> [] \<and> hd s = CHR ''-'');
          ds = (if s \<noteq> [] \<and> (hd s = CHR ''-'' \<or> hd s = CHR ''+'') then tl s else s)
      in if ds = [] \<or> \<not> list_all isDigit ds then None
         else let n = digitsValue ds
              in if neg then (if n > 2 ^ 63 then None else Some (- n))
                 else (if n \<ge> 2 ^ 63 then None else Some n))"

subsection \<open>fmt.Sprintf with the verb %d\<close>

fun fmtNat :: "nat \<Rightarrow> string" where
  "fmtNat n = (if n < 10 then [char_of (48 + n)] else fmtNat (n div 10) @ [char_of (48 + n mod 10)])"

declare fmtNat.simps [simp del]

definition fmtInt :: "int \<Rightarrow> string" where
  "fmtInt i = (if i < 0 then CHR ''-'' # fmtNat (nat (- i)) else fmtNat (nat i))"

section \<open>Connections, readers and the buffer pool\<close>

text \<open>
  What a read of the stream can fail with: \<open>io.EOF\<close>, \<open>io.ErrUnexpectedEOF\<close>, or an
  error of the network layer (identified by its message).
\<close>

datatype io_error = EOF | ErrUnexpectedEOF | NetError string

text \<open>
  A \<open>net.Conn\<close> as the server sees it. The peer sends the bytes \<open>incoming\<close>; once they
  are used up, \<open>Read\<close> fails with \<open>read_err\<close> (\<open>EOF\<close> when the peer closed its side).
  \<open>write_err k\<close> is the outcome of the \<open>k\<close>-th call of \<open>Write\<close> on the connection, counted
  from 0 (\<open>None\<close>: the write succeeds); \<open>written\<close> records the byte strings passed to
  \<open>Write\<close>, oldest first, and \<open>closed\<close> whether \<open>Close\<close> has been called. A peer that
  neither sends nor closes, so that a read blocks for ever, is outside the model.
\<close>

record conn =
  incoming :: string
  read_err :: io_error
  write_err :: "nat \<Rightarrow> io_error option"
  written :: "string list"
  closed :: bool

definition Write :: "conn \<Rightarrow> string \<Rightarrow> conn \<times> io_error option" where
  "Write c b = (c\<lparr>written := written c @ [b]\<rparr>, write_err c (length (written c)))"

definition Close :: "conn \<Rightarrow> conn" where
  "Close c = c\<lparr>closed := True\<rparr>"

text \<open>
  A \<open>bufio.Reader\<close> over the connection: the bytes not yet handed out, and the error
  that follows them.
\<close>

record Reader =
  pending :: string
  fail :: io_error

definition NewReader :: "conn \<Rightarrow> Reader" where
  "NewReader c = \<lparr>pending = incoming c, fail = read_err c\<rparr>"

text \<open>
  \<open>ReadString\<close> returns the bytes up to and including the first \<open>delim\<close>; when the
  stream ends before a \<open>delim\<close>, it returns the error of the stream.
\<close>

definition ReadString :: "Reader \<Rightarrow> char \<Rightarrow> io_error + (string \<times> Reader)" where
  "ReadString r delim =
     (if delim \<in> set (pending r)
      then Inr (takeWhile (\<lambda>c. c \<noteq> delim) (pending r) @ [delim],
                r\<lparr>pending := tl (dropWhile (\<lambda>c. c \<noteq> delim) (pending r))\<rparr>)
      else Inl (fail r))"

text \<open>
  \<open>io.ReadFull\<close> into a buffer of \<open>n\<close> bytes: exactly \<open>n\<close> bytes, or an error. A stream
  that ends with \<open>EOF\<close> after some but not all of the bytes gives \<open>ErrUnexpectedEOF\<close>;
  with \<open>n = 0\<close> nothing is read and the call succeeds.
\<close>

definition ReadFull :: "Reader \<Rightarrow> nat \<Rightarrow> io_error + (string \<times> Reader)" where
  "ReadFull r n =
     (if n \<le> length (pending r)
      then Inr (take n (pending r), r\<lparr>pending := drop n (pending r)\<rparr>)
      else if pending r \<noteq> [] \<and> fail r = EOF then Inl ErrUnexpectedEOF
      else Inl (fail r))"

text \<open>
  The global \<open>bufferPool\<close>: every buffer it hands out has length and capacity 4096
  (\<open>New\<close> makes them so, and only such buffers are put back). Its use is recorded as the
  sequence of \<open>Get\<close> and \<open>Put\<close> calls.
\<close>

datatype pool_event = Get | Put

definition bufferCap :: nat where
  "bufferCap = 4096"

section \<open>The server\<close>

type_synonym headers = "string \<rightharpoonup> string"

record Request =
  Method :: string
  URL :: string
  Headers :: headers
  Body :: string

record Response =
  StatusCode :: int
  Headers :: headers
  Body :: string

text \<open>
  The errors \<open>parseRequest\<close> returns: its three own (\<open>fmt.Errorf\<close> with the messages
  "malformed request line", "malformed header line", "invalid Content-Length") and the
  errors of the reader, passed on unchanged. A call either returns a value, returns an
  error, or panics (a run-time panic is no return: it unwinds into the caller).
\<close>

datatype error = MalformedRequestLine | MalformedHeaderLine | InvalidContentLength | IOError io_error

datatype 'a result = Ok 'a | Err error | Panic

subsection \<open>parseRequest\<close>

lemma ReadString_shorter:
  "ReadString r delim = Inr (line, r') \<Longrightarrow> length (pending r') < length (pending r)"
proof -
  assume a: "ReadString r delim = Inr (line, r')"
  then have mem: "delim \<in> set (pending r)"
    by (auto simp: ReadString_def split: if_splits)
  then have ne: "0 < length (pending r)" by (cases "pending r") auto
  have "length (dropWhile (\<lambda>c. c \<noteq> delim) (pending r)) \<le> length (pending r)"
    by (rule length_dropWhile_le)
  moreover have "length (pending r') = length (dropWhile (\<lambda>c. c \<noteq> delim) (pending r)) - 1"
    using a mem by (auto simp: ReadString_def)
  ultimately show ?thesis
    using ne by linarith
qed

text \<open>The header loop (lines 96 to 110 of the source).\<close>

function readHeaders :: "Reader \<Rightarrow> headers \<Rightarrow> error + (headers \<times> Reader)" where
  "readHeaders reader headers =
     (case ReadString reader LF of
        Inl err \<Rightarrow> Inl (IOError err)
      | Inr (line0, reader') \<Rightarrow>
          (let line = TrimSpace line0 in
           if line = [] then Inr (headers, reader')
           else let headerParts = SplitN line '': '' 2 in
                if length headerParts \<noteq> 2 then Inl MalformedHeaderLine
                else readHeaders reader' (headers(headerParts ! 0 \<mapsto> headerParts ! 1))))"
  by pat_completeness auto
termination
  by (relation "measure (\<lambda>(reader, headers). length (pending reader))")
     (auto dest: ReadString_shorter)

declare readHeaders.simps [simp del]

text \<open>
  The body (lines 112 to 126). \<open>bodyBuffer[:length]\<close> panics with "slice bounds out of
  range" unless \<open>0 \<le> length \<le> cap(bodyBuffer)\<close>. The deferred \<open>Put\<close> runs on every
  way out of the function once it is registered, a panic included.
\<close>

definition readBody :: "Reader \<Rightarrow> headers \<Rightarrow> string result \<times> pool_event list" where
  "readBody reader headers =
     (case headers ''Content-Length'' of
        None \<Rightarrow> (Ok [], [])
      | Some contentLength \<Rightarrow>
          (case Atoi contentLength of
             None \<Rightarrow> (Err InvalidContentLength, [])
           | Some len \<Rightarrow>
               ((if len < 0 \<or> int bufferCap < len then Panic
                 else case ReadFull reader (nat len) of
                        Inl err \<Rightarrow> Err (IOError err)
                      | Inr (bodyBytes, reader') \<Rightarrow> Ok bodyBytes),
                [Get] @ [Put])))"

definition parseRequest :: "conn \<Rightarrow> Request result \<times> pool_event list" where
  "parseRequest c =
     (let reader = NewReader c in
      case ReadString reader LF of
        Inl err \<Rightarrow> (Err (IOError err), [])
      | Inr (requestLine, reader) \<Rightarrow>
          (let parts = Split (TrimSpace requestLine) '' '' in
           if length parts \<noteq> 3 then (Err MalformedRequestLine, [])
           else let method = parts ! 0; url = parts ! 1 in
                case readHeaders reader Map.empty of
                  Inl err \<Rightarrow> (Err err, [])
                | Inr (headers, reader) \<Rightarrow>
                    (case readBody reader headers of
                       (Ok body, pool) \<Rightarrow>
                         (Ok \<lparr>Method = method, URL = url,
                              Request.Headers = headers, Request.Body = body\<rparr>, pool)
                     | (Err err, pool) \<Rightarrow> (Err err, pool)
                     | (Panic, pool) \<Rightarrow> (Panic, pool))))"

subsection \<open>The route handlers\<close>

definition handleRoot :: "Request \<Rightarrow> Response" where
  "handleRoot req =
     \<lparr>StatusCode = 200,
      Headers = [''Content-Type'' \<mapsto> ''text/plain''],
      Body = ''Welcome to the root page!''\<rparr>"

text \<open>Reading a Go map at a key it does not hold gives the zero value, the empty string.\<close>

definition handleHello :: "Request \<Rightarrow> Response" where
  "handleHello req =
     (let name = (case Request.Headers req ''Name'' of None \<Rightarrow> [] | Some v \<Rightarrow> v);
          name = (if name = [] then ''World'' else name)
      in \<lparr>StatusCode = 200,
          Headers = [''Content-Type'' \<mapsto> ''text/plain''],
          Body = ''Hello, '' @ name @ ''!''\<rparr>)"

definition handleRequest :: "Request \<Rightarrow> Response" where
  "handleRequest req =
     (if URL req = ''/'' then handleRoot req
      else if URL req = ''/hello'' then handleHello req
      else \<lparr>StatusCode = 404,
             Headers = [''Content-Type'' \<mapsto> ''text/plain''],
             Body = ''404 Not Found''\<rparr>)"

subsection \<open>writeResponse\<close>

definition statusText :: "int \<Rightarrow> string" where
  "statusText statusCode =
     (if statusCode = 200 then ''OK''
      else if statusCode = 400 then ''Bad Request''
      else if statusCode = 404 then ''Not Found''
      else if statusCode = 500 then ''Internal Server Error''
      else ''Unknown Status'')"

text \<open>
  \<open>range\<close> over a Go map visits every entry once, in an order the run time chooses.
  The order is a parameter of the model: \<open>rangeOf m kvs\<close> says that the list \<open>kvs\<close> is
  one possible iteration of the map \<open>m\<close>.
\<close>

definition rangeOf :: "headers \<Rightarrow> (string \<times> string) list \<Rightarrow> bool" where
  "rangeOf m kvs \<longleftrightarrow> distinct (map fst kvs) \<and> map_of kvs = m"

definition statusLine :: "int \<Rightarrow> string" where
  "statusLine code = ''HTTP/1.1 '' @ fmtInt code @ '' '' @ statusText code @ [CR, LF]"

definition headerLine :: "string \<times> string \<Rightarrow> string" where
  "headerLine kv = fst kv @ '': '' @ snd kv @ [CR, LF]"

text \<open>The loop over the headers (lines 184 to 190), on the entries in iteration order.\<close>

fun writeHeaders :: "conn \<Rightarrow> (string \<times> string) list \<Rightarrow> conn \<times> io_error option" where
  "writeHeaders c [] = (c, None)"
| "writeHeaders c (kv # kvs) =
     (case Write c (headerLine kv) of
        (c', Some err) \<Rightarrow> (c', Some err)
      | (c', None) \<Rightarrow> writeHeaders c' kvs)"

definition writeResponse ::
  "(headers \<Rightarrow> (string \<times> string) list) \<Rightarrow> conn \<Rightarrow> Response \<Rightarrow> conn \<times> io_error option" where
  "writeResponse iter c res =
     (case Write c (statusLine (StatusCode res)) of
        (c1, Some err) \<Rightarrow> (c1, Some err)
      | (c1, None) \<Rightarrow>
          (case writeHeaders c1 (iter (Headers res)) of
             (c2, Some err) \<Rightarrow> (c2, Some err)
           | (c2, None) \<Rightarrow>
               (case Write c2 [CR, LF] of
                  (c3, Some err) \<Rightarrow> (c3, Some err)
                | (c3, None) \<Rightarrow> Write c3 (Body res))))"

text \<open>\<open>writeErrorResponse\<close> only logs the error of the write; it returns nothing.\<close>

definition writeErrorResponse ::
  "(headers \<Rightarrow> (string \<times> string) list) \<Rightarrow> conn \<Rightarrow> int \<Rightarrow> string \<Rightarrow> conn" where
  "writeErrorResponse iter c statusCode message =
     fst (writeResponse iter c
            \<lparr>StatusCode = statusCode,
             Headers = [''Content-Type'' \<mapsto> ''text/plain''],
             Body = message\<rparr>)"

subsection \<open>handleConnection\<close>

text \<open>
  The handler returns nothing: what it does is the final state of the connection, whether
  it returned or let a panic of \<open>parseRequest\<close> pass (the deferred \<open>Close\<close> runs in both
  cases), and the use it made of the buffer pool. Log output goes to the process's
  standard error, not to the connection, and is left out.
\<close>

datatype exit = Returned | Panicked

definition handleConnection ::
  "(headers \<Rightarrow> (string \<times> string) list) \<Rightarrow> conn \<Rightarrow> conn \<times> exit \<times> pool_event list" where
  "handleConnection iter c =
     (case parseRequest c of
        (Panic, pool) \<Rightarrow> (Close c, Panicked, pool)
      | (Err err, pool) \<Rightarrow> (Close (writeErrorResponse iter c 400 ''Bad Request''), Returned, pool)
      | (Ok req, pool) \<Rightarrow>
          (let res = handleRequest req;
               (c', err) = writeResponse iter c res
           in (Close c', Returned, pool)))"

section \<open>Auxiliary definitions for the proofs\<close>

text \<open>
  A sequence of writes that stops at the first failure: the shape shared by the four
  stages of \<open>writeResponse\<close>.
\<close>

fun writeAll :: "conn \<Rightarrow> string list \<Rightarrow> conn \<times> io_error option" where
  "writeAll c [] = (c, None)"
| "writeAll c (b # bs) =
     (case Write c b of
        (c', Some err) \<Rightarrow> (c', Some err)
      | (c', None) \<Rightarrow> writeAll c' bs)"

text \<open>
  Example inputs: a fresh connection on which the peer sends \<open>s\<close> and then closes its
  side, every write succeeding; the same with the write number \<open>k\<close> failing; and the only
  iteration of a map with the single entry \<open>Content-Type: text/plain\<close>.
\<close>

definition peer :: "string \<Rightarrow> conn" where
  "peer s = \<lparr>incoming = s, read_err = EOF, write_err = (\<lambda>k. None), written = [], closed = False\<rparr>"

definition brokenPeer :: "string \<Rightarrow> nat \<Rightarrow> conn" where
  "brokenPeer s k =
     \<lparr>incoming = s, read_err = EOF,
      write_err = (\<lambda>j. if j = k then Some (NetError ''broken pipe'') else None),
      written = [], closed = False\<rparr>"

definition plainIter :: "headers \<Rightarrow> (string \<times> string) list" where
  "plainIter m = [(''Content-Type'', ''text/plain'')]"

text \<open>
  Following the words of the specification: the name and the value of a (trimmed) header
  line, split at the first occurrence of colon-space, when there is one. It is compared
  with what \<open>SplitN\<close> makes of the line in \<open>SplitN_two\<close> below.
\<close>

definition headerEntry :: "string \<Rightarrow> (string \<times> string) option" where
  "headerEntry line =
     (case Index line '': '' of None \<Rightarrow> None | Some i \<Rightarrow> Some (take i line, drop (i + 2) line))"

section \<open>The response serializer\<close>

lemma writeAll_append:
  "writeAll c (xs @ ys) =
     (case writeAll c xs of (c', Some err) \<Rightarrow> (c', Some err) | (c', None) \<Rightarrow> writeAll c' ys)"
  by (induction xs arbitrary: c) (auto split: prod.splits option.splits)

lemma writeHeaders_writeAll: "writeHeaders c kvs = writeAll c (map headerLine kvs)"
  by (induction kvs arbitrary: c) (auto split: prod.splits option.splits)

lemma writeResponse_writeAll:
  "writeResponse iter c res =
     writeAll c (statusLine (StatusCode res) # map headerLine (iter (Headers res)) @ [[CR, LF], Body res])"
  by (auto simp: writeResponse_def writeAll_append writeHeaders_writeAll
      split: prod.splits option.splits)

lemma writeAll_ok:
  "\<forall>j<length ws. write_err c (length (written c) + j) = None \<Longrightarrow>
   writeAll c ws = (c\<lparr>written := written c @ ws\<rparr>, None)"
proof (induction ws arbitrary: c)
  case Nil
  then show ?case by simp
next
  case (Cons b bs)
  from Cons.prems have h0: "write_err c (length (written c)) = None" by force
  have "\<forall>j<length bs. write_err (c\<lparr>written := written c @ [b]\<rparr>)
          (length (written (c\<lparr>written := written c @ [b]\<rparr>)) + j) = None"
    using Cons.prems by force
  from Cons.IH [OF this] h0 show ?case
    by (simp add: Write_def)
qed

lemma writeAll_fail:
  "i < length ws \<Longrightarrow> write_err c (length (written c) + i) = Some e \<Longrightarrow>
   \<forall>j<i. write_err c (length (written c) + j) = None \<Longrightarrow>
   writeAll c ws = (c\<lparr>written := written c @ take (Suc i) ws\<rparr>, Some e)"
proof (induction ws arbitrary: c i)
  case Nil
  then show ?case by simp
next
  case (Cons b bs)
  show ?case
  proof (cases i)
    case 0
    with Cons.prems show ?thesis by (simp add: Write_def)
  next
    case (Suc i')
    let ?c1 = "c\<lparr>written := written c @ [b]\<rparr>"
    from Cons.prems Suc have h0: "write_err c (length (written c)) = None" by force
    have a: "i' < length bs" using Cons.prems Suc by simp
    have b: "write_err ?c1 (length (written ?c1) + i') = Some e"
      using Cons.prems Suc by simp
    have c: "\<forall>j<i'. write_err ?c1 (length (written ?c1) + j) = None"
      using Cons.prems(3) Suc by force
    from Cons.IH [OF a b c] h0 Suc show ?thesis
      by (simp add: Write_def)
  qed
qed

lemma writeAll_result:
  "writeAll c ws = (c', None) \<Longrightarrow>
     c' = c\<lparr>written := written c @ ws\<rparr> \<and>
     (\<forall>j<length ws. write_err c (length (written c) + j) = None)"
proof (induction ws arbitrary: c)
  case Nil
  then show ?case by simp
next
  case (Cons b bs)
  let ?c1 = "c\<lparr>written := written c @ [b]\<rparr>"
  from Cons.prems have h0: "write_err c (length (written c)) = None"
    and r: "writeAll ?c1 bs = (c', None)"
    by (auto simp: Write_def split: option.splits)
  from Cons.IH [OF r] have c': "c' = c\<lparr>written := written c @ b # bs\<rparr>"
    and ok: "\<forall>j<length bs. write_err c (Suc (length (written c) + j)) = None"
    by simp_all
  have "\<forall>j<length (b # bs). write_err c (length (written c) + j) = None"
  proof (intro allI impI)
    fix j assume "j < length (b # bs)"
    then show "write_err c (length (written c) + j) = None"
      using h0 ok by (cases j) auto
  qed
  with c' show ?case by simp
qed

text \<open>Whatever the outcome, the writes issued are a non-empty initial part of the sequence.\<close>

lemma writeAll_prefix:
  "ws \<noteq> [] \<Longrightarrow> \<exists>n. 1 \<le> n \<and> n \<le> length ws \<and> fst (writeAll c ws) = c\<lparr>written := written c @ take n ws\<rparr>"
proof (induction ws arbitrary: c)
  case Nil
  then show ?case by simp
next
  case (Cons b bs)
  let ?c1 = "c\<lparr>written := written c @ [b]\<rparr>"
  show ?case
  proof (cases "write_err c (length (written c)) = None \<and> bs \<noteq> []")
    case True
    with Cons.IH [of ?c1] obtain n where n: "1 \<le> n" "n \<le> length bs"
      "fst (writeAll ?c1 bs) = ?c1\<lparr>written := written ?c1 @ take n bs\<rparr>"
      by auto
    with True have "fst (writeAll c (b # bs)) = c\<lparr>written := written c @ take (Suc n) (b # bs)\<rparr>"
      by (simp add: Write_def)
    with n show ?thesis
      by (intro exI [of _ "Suc n"]) simp
  next
    case False
    then have "fst (writeAll c (b # bs)) = c\<lparr>written := written c @ take 1 (b # bs)\<rparr>"
      by (auto simp: Write_def split: option.splits)
    then show ?thesis
      by (intro exI [of _ 1]) simp
  qed
qed

lemma rangeOf_single:
  assumes "rangeOf [k \<mapsto> v] kvs"
  shows "kvs = [(k, v)]"
proof -
  from assms have d: "distinct (map fst kvs)" and m: "map_of kvs = [k \<mapsto> v]"
    by (auto simp: rangeOf_def)
  have keys: "fst ` set kvs = {k}"
    using m by (metis dom_map_of_conv_image_fst dom_empty dom_fun_upd option.distinct(1))
  show ?thesis
  proof (cases kvs)
    case Nil
    with keys show ?thesis by simp
  next
    case (Cons a rest)
    obtain a1 a2 where a: "a = (a1, a2)" by (cases a)
    from keys Cons a have a1: "a1 = k" by auto
    have "rest = []"
    proof (cases rest)
      case Nil
      then show ?thesis .
    next
      case (Cons b rest')
      with keys \<open>kvs = a # rest\<close> have "fst b = k" by auto
      with d a a1 Cons \<open>kvs = a # rest\<close> show ?thesis by auto
    qed
    moreover from m Cons a a1 have "a2 = v"
      by (auto dest: fun_cong [where x = k])
    ultimately show ?thesis using Cons a a1 by simp
  qed
qed

lemma fmtInt_200: "fmtInt 200 = ''200''"
  by code_simp

lemma fmtInt_400: "fmtInt 400 = ''400''"
  by code_simp

text \<open>
  Claim C4. On a connection whose writes succeed, \<open>writeResponse\<close> writes exactly, in
  order: the status line \<open>HTTP/1.1 <code> <reason>\<close> ended by CR LF, with the reason
  phrase taken from the closed table (200 OK, 400 Bad Request, 404 Not Found,
  500 Internal Server Error, anything else Unknown Status); then one line
  \<open><name>: <value>\<close> CR LF for each entry of the header map, in the order the iteration
  yields them (every entry once); then CR LF; then the body and nothing after it. The
  header lines are those of the map's entries only: no \<open>Content-Length\<close> line appears
  unless the map holds that key.
\<close>

theorem writeResponse_wire_format:
  assumes iter: "rangeOf (Headers res) (iter (Headers res))"
    and ok: "\<forall>k. write_err c k = None"
  shows "writeResponse iter c res =
           (c\<lparr>written := written c @
                [''HTTP/1.1 '' @ fmtInt (StatusCode res) @ '' '' @
                   (if StatusCode res = 200 then ''OK''
                    else if StatusCode res = 400 then ''Bad Request''
                    else if StatusCode res = 404 then ''Not Found''
                    else if StatusCode res = 500 then ''Internal Server Error''
                    else ''Unknown Status'') @ [CR, LF]] @
                map (\<lambda>(name, value). name @ '': '' @ value @ [CR, LF]) (iter (Headers res)) @
                [[CR, LF], Body res]\<rparr>, None)
         \<and> distinct (map fst (iter (Headers res)))
         \<and> map_of (iter (Headers res)) = Headers res
         \<and> (Headers res ''Content-Length'' = None \<longrightarrow>
              ''Content-Length'' \<notin> fst ` set (iter (Headers res)))"
proof -
  have hl: "headerLine = (\<lambda>(name, value). name @ '': '' @ value @ [CR, LF])"
    by (auto simp: headerLine_def fun_eq_iff)
  have "writeResponse iter c res =
      (c\<lparr>written := written c @
         (statusLine (StatusCode res) # map headerLine (iter (Headers res)) @ [[CR, LF], Body res])\<rparr>, None)"
    unfolding writeResponse_writeAll using ok by (intro writeAll_ok) simp
  then have 1: "writeResponse iter c res =
           (c\<lparr>written := written c @
                [''HTTP/1.1 '' @ fmtInt (StatusCode res) @ '' '' @
                   (if StatusCode res = 200 then ''OK''
                    else if StatusCode res = 400 then ''Bad Request''
                    else if StatusCode res = 404 then ''Not Found''
                    else if StatusCode res = 500 then ''Internal Server Error''
                    else ''Unknown Status'') @ [CR, LF]] @
                map (\<lambda>(name, value). name @ '': '' @ value @ [CR, LF]) (iter (Headers res)) @
                [[CR, LF], Body res]\<rparr>, None)"
    by (simp add: statusLine_def statusText_def hl)
  from iter have 2: "distinct (map fst (iter (Headers res)))"
    and 3: "map_of (iter (Headers res)) = Headers res"
    by (simp_all add: rangeOf_def)
  have 4: "Headers res ''Content-Length'' = None \<longrightarrow>
              ''Content-Length'' \<notin> fst ` set (iter (Headers res))"
    using 3 by (metis domIff dom_map_of_conv_image_fst)
  from 1 2 3 4 show ?thesis by blast
qed

theorem writeResponse_wire_format_witness:
  "rangeOf [''Content-Type'' \<mapsto> ''text/plain''] (plainIter [''Content-Type'' \<mapsto> ''text/plain''])
   \<and> (\<forall>k. write_err (peer []) k = None)
   \<and> written (fst (writeResponse plainIter (peer [])
        \<lparr>StatusCode = 200, Headers = [''Content-Type'' \<mapsto> ''text/plain''], Body = ''Hello, Go!''\<rparr>)) =
       [''HTTP/1.1 200 OK'' @ [CR, LF], ''Content-Type: text/plain'' @ [CR, LF], [CR, LF], ''Hello, Go!'']
   \<and> snd (writeResponse plainIter (peer [])
        \<lparr>StatusCode = 200, Headers = [''Content-Type'' \<mapsto> ''text/plain''], Body = ''Hello, Go!''\<rparr>) = None"
proof -
  let ?res = "\<lparr>StatusCode = 200, Headers = [''Content-Type'' \<mapsto> ''text/plain''], Body = ''Hello, Go!''\<rparr>"
  have h1: "rangeOf (Headers ?res) (plainIter (Headers ?res))"
    by (simp add: rangeOf_def plainIter_def)
  have h2: "\<forall>k. write_err (peer []) k = None"
    by (simp add: peer_def)
  from writeResponse_wire_format [where res = ?res and iter = plainIter and c = "peer []", OF h1 h2]
    h1 h2 show ?thesis
    by (simp add: fmtInt_200 plainIter_def peer_def)
qed

text \<open>
  Claim C7. Whatever the response and whichever writes of the connection fail: when the
  write number \<open>i\<close> of the response (counted from 0 over the status line, the header
  lines, the blank line and the body) is the first one to fail, \<open>writeResponse\<close> has issued
  exactly the writes up to and including that one, none after it, and returns the error
  of that write. It returns no error only if all of them were issued and every one
  succeeded. The header lines are those of the entries the iteration yields.
\<close>

theorem writeResponse_stops_at_first_failure:
  "(\<forall>i e. i < length (iter (Headers res)) + 3
           \<and> write_err c (length (written c) + i) = Some e
           \<and> (\<forall>j<i. write_err c (length (written c) + j) = None) \<longrightarrow>
       writeResponse iter c res =
         (c\<lparr>written := written c @
               take (Suc i) (statusLine (StatusCode res) # map headerLine (iter (Headers res)) @
                             [[CR, LF], Body res])\<rparr>,
          Some e))
   \<and> (snd (writeResponse iter c res) = None \<longrightarrow>
        fst (writeResponse iter c res) =
          c\<lparr>written := written c @
                statusLine (StatusCode res) # map headerLine (iter (Headers res)) @
                [[CR, LF], Body res]\<rparr>
        \<and> (\<forall>j<length (iter (Headers res)) + 3. write_err c (length (written c) + j) = None))"
proof -
  let ?ws = "statusLine (StatusCode res) # map headerLine (iter (Headers res)) @ [[CR, LF], Body res]"
  have len: "length ?ws = length (iter (Headers res)) + 3" by simp
  have fail: "writeResponse iter c res = (c\<lparr>written := written c @ take (Suc i) ?ws\<rparr>, Some e)"
    if "i < length (iter (Headers res)) + 3"
      and "write_err c (length (written c) + i) = Some e"
      and "\<forall>j<i. write_err c (length (written c) + j) = None" for i e
    unfolding writeResponse_writeAll using that len by (intro writeAll_fail) simp_all
  have ok: "fst (writeResponse iter c res) = c\<lparr>written := written c @ ?ws\<rparr>
        \<and> (\<forall>j<length (iter (Headers res)) + 3. write_err c (length (written c) + j) = None)"
    if "snd (writeResponse iter c res) = None"
  proof -
    from that have r: "writeAll c ?ws = (fst (writeResponse iter c res), None)"
      unfolding writeResponse_writeAll by (metis prod.collapse)
    from writeAll_result [OF r] len show ?thesis by simp
  qed
  from fail ok show ?thesis by blast
qed

theorem writeResponse_stops_at_first_failure_witness:
  "writeResponse plainIter (brokenPeer [] 2)
      \<lparr>StatusCode = 200, Headers = [''Content-Type'' \<mapsto> ''text/plain''], Body = ''Hello, Go!''\<rparr> =
     ((brokenPeer [] 2)\<lparr>written :=
         [''HTTP/1.1 200 OK'' @ [CR, LF], ''Content-Type: text/plain'' @ [CR, LF], [CR, LF]]\<rparr>,
      Some (NetError ''broken pipe''))
   \<and> snd (writeResponse plainIter (peer [])
      \<lparr>StatusCode = 200, Headers = [''Content-Type'' \<mapsto> ''text/plain''], Body = ''Hello, Go!''\<rparr>) = None
   \<and> written (fst (writeResponse plainIter (peer [])
      \<lparr>StatusCode = 200, Headers = [''Content-Type'' \<mapsto> ''text/plain''], Body = ''Hello, Go!''\<rparr>)) =
       [''HTTP/1.1 200 OK'' @ [CR, LF], ''Content-Type: text/plain'' @ [CR, LF], [CR, LF], ''Hello, Go!'']"
proof -
  let ?res = "\<lparr>StatusCode = 200, Headers = [''Content-Type'' \<mapsto> ''text/plain''], Body = ''Hello, Go!''\<rparr>"
  have h: "(2::nat) < length (plainIter (Headers ?res)) + 3
     \<and> write_err (brokenPeer [] 2) (length (written (brokenPeer [] 2)) + 2) = Some (NetError ''broken pipe'')
     \<and> (\<forall>j<2. write_err (brokenPeer [] 2) (length (written (brokenPeer [] 2)) + j) = None)"
    by (simp add: plainIter_def brokenPeer_def)
  have ok: "snd (writeResponse plainIter (peer []) ?res) = None"
    by (simp add: writeResponse_def Write_def peer_def plainIter_def)
  from writeResponse_stops_at_first_failure [where iter = plainIter and res = ?res and c = "brokenPeer [] 2"] h
  have 1: "writeResponse plainIter (brokenPeer [] 2) ?res =
     ((brokenPeer [] 2)\<lparr>written := written (brokenPeer [] 2) @
               take (Suc 2) (statusLine (StatusCode ?res) # map headerLine (plainIter (Headers ?res)) @
                             [[CR, LF], Body ?res])\<rparr>,
          Some (NetError ''broken pipe''))"
    by blast
  from writeResponse_stops_at_first_failure [where iter = plainIter and res = ?res and c = "peer []"] ok
  have 2: "fst (writeResponse plainIter (peer []) ?res) =
          (peer [])\<lparr>written := written (peer []) @
                statusLine (StatusCode ?res) # map headerLine (plainIter (Headers ?res)) @
                [[CR, LF], Body ?res]\<rparr>"
    by blast
  have sl: "statusLine 200 = ''HTTP/1.1 200 OK'' @ [CR, LF]"
    by (simp add: statusLine_def statusText_def fmtInt_200)
  have w: "written (brokenPeer [] 2) = []" "written (peer []) = []"
    by (simp_all add: brokenPeer_def peer_def)
  show ?thesis
    using ok by (simp add: 1 2 sl headerLine_def plainIter_def w)
qed

section \<open>The /hello route\<close>

text \<open>
  Claim C9. For a request dispatched to the route \<open>/hello\<close>: when the header \<open>Name\<close>
  is absent or empty the response has status 200 and body \<open>Hello, World!\<close>; otherwise it
  has status 200 and body \<open>Hello, <value>!\<close>.
\<close>

theorem handleHello_greeting:
  assumes "URL req = ''/hello''"
  shows "(Request.Headers req ''Name'' = None \<or> Request.Headers req ''Name'' = Some [] \<longrightarrow>
            StatusCode (handleRequest req) = 200 \<and> Body (handleRequest req) = ''Hello, World!'')
       \<and> (\<forall>v. Request.Headers req ''Name'' = Some v \<and> v \<noteq> [] \<longrightarrow>
            StatusCode (handleRequest req) = 200 \<and> Body (handleRequest req) = ''Hello, '' @ v @ ''!'')"
  using assms by (auto simp: handleRequest_def handleHello_def)

theorem handleHello_greeting_witness:
  "Body (handleRequest \<lparr>Method = ''GET'', URL = ''/hello'', Request.Headers = [''Name'' \<mapsto> ''Go''], Request.Body = []\<rparr>) = ''Hello, Go!''
   \<and> StatusCode (handleRequest \<lparr>Method = ''GET'', URL = ''/hello'', Request.Headers = [''Name'' \<mapsto> ''Go''], Request.Body = []\<rparr>) = 200
   \<and> Body (handleRequest \<lparr>Method = ''GET'', URL = ''/hello'', Request.Headers = Map.empty, Request.Body = []\<rparr>) = ''Hello, World!''
   \<and> Body (handleRequest \<lparr>Method = ''GET'', URL = ''/hello'', Request.Headers = [''Name'' \<mapsto> []], Request.Body = []\<rparr>) = ''Hello, World!''"
proof -
  let ?r1 = "\<lparr>Method = ''GET'', URL = ''/hello'', Request.Headers = [''Name'' \<mapsto> ''Go''], Request.Body = []\<rparr>"
  let ?r2 = "\<lparr>Method = ''GET'', URL = ''/hello'', Request.Headers = Map.empty, Request.Body = []\<rparr>"
  let ?r3 = "\<lparr>Method = ''GET'', URL = ''/hello'', Request.Headers = [''Name'' \<mapsto> []], Request.Body = []\<rparr>"
  have u: "URL ?r1 = ''/hello''" "URL ?r2 = ''/hello''" "URL ?r3 = ''/hello''" by simp_all
  from handleHello_greeting [OF u(1)] handleHello_greeting [OF u(2)] handleHello_greeting [OF u(3)]
  show ?thesis by simp
qed

section \<open>The connection handler\<close>

text \<open>
  Claim C3 says that a stream I/O error before a full request line is available closes
  the connection without any attempt to write a response. The handler does not tell the
  errors of \<open>parseRequest\<close> apart: on a stream that ends after \<open>GET /\<close>, before any line
  end, \<open>parseRequest\<close> returns the error \<open>EOF\<close> of the stream and the handler writes the
  400 response.
\<close>

theorem handleConnection_io_error_counterexample:
  "fst (parseRequest (peer ''GET /'')) = Err (IOError EOF)
   \<and> written (fst (handleConnection plainIter (peer ''GET /''))) =
       [''HTTP/1.1 400 Bad Request'' @ [CR, LF], ''Content-Type: text/plain'' @ [CR, LF],
        [CR, LF], ''Bad Request'']"
proof -
  have p: "parseRequest (peer ''GET /'') = (Err (IOError EOF), [])"
    by (simp add: parseRequest_def peer_def NewReader_def ReadString_def)
  have sl: "statusLine 400 = ''HTTP/1.1 400 Bad Request'' @ [CR, LF]"
    by (simp add: statusLine_def statusText_def fmtInt_400)
  have "written (peer ''GET /'') = []" "\<forall>j. write_err (peer ''GET /'') j = None"
    by (simp_all add: peer_def)
  then have "written (writeErrorResponse plainIter (peer ''GET /'') 400 ''Bad Request'') =
       [''HTTP/1.1 400 Bad Request'' @ [CR, LF], ''Content-Type: text/plain'' @ [CR, LF],
        [CR, LF], ''Bad Request'']"
    by (simp add: writeErrorResponse_def writeResponse_def Write_def sl plainIter_def headerLine_def)
  with p show ?thesis
    by (simp add: handleConnection_def Close_def)
qed

text \<open>
  Claim C3, amended. Whenever \<open>parseRequest\<close> returns an error, a stream I/O error
  (also one before a full request line is available) as much as a malformed request
  line, a malformed header line or an invalid Content-Length, the handler attempts to
  write the response \<open>400 Bad Request\<close> (at least its status line is passed to \<open>Write\<close>,
  and all four parts when no write fails), closes the connection and returns.
\<close>

theorem handleConnection_error_response:
  assumes err: "fst (parseRequest c) = Err err"
    and iter: "rangeOf [''Content-Type'' \<mapsto> ''text/plain''] (iter [''Content-Type'' \<mapsto> ''text/plain''])"
  shows "closed (fst (handleConnection iter c))
       \<and> fst (snd (handleConnection iter c)) = Returned
       \<and> (\<exists>n\<ge>1. written (fst (handleConnection iter c)) =
             written c @ take n [''HTTP/1.1 400 Bad Request'' @ [CR, LF],
                                 ''Content-Type: text/plain'' @ [CR, LF], [CR, LF], ''Bad Request''])
       \<and> ((\<forall>k. write_err c k = None) \<longrightarrow>
             written (fst (handleConnection iter c)) =
             written c @ [''HTTP/1.1 400 Bad Request'' @ [CR, LF],
                          ''Content-Type: text/plain'' @ [CR, LF], [CR, LF], ''Bad Request''])"
proof -
  let ?resp = "[''HTTP/1.1 400 Bad Request'' @ [CR, LF],
                ''Content-Type: text/plain'' @ [CR, LF], [CR, LF], ''Bad Request'']"
  let ?res = "\<lparr>StatusCode = 400, Headers = [''Content-Type'' \<mapsto> ''text/plain''], Body = ''Bad Request''\<rparr>"
  obtain pool where p: "parseRequest c = (Err err, pool)"
    using err by (cases "parseRequest c") auto
  then have hc: "handleConnection iter c = (Close (fst (writeResponse iter c ?res)), Returned, pool)"
    by (simp add: handleConnection_def writeErrorResponse_def)
  have sl: "statusLine 400 = ''HTTP/1.1 400 Bad Request'' @ [CR, LF]"
    by (simp add: statusLine_def statusText_def fmtInt_400)
  have it: "iter [''Content-Type'' \<mapsto> ''text/plain''] = [(''Content-Type'', ''text/plain'')]"
    using iter by (rule rangeOf_single)
  have ws: "writeResponse iter c ?res = writeAll c ?resp"
    by (simp add: writeResponse_writeAll sl it headerLine_def)
  have 1: "closed (fst (handleConnection iter c))" "fst (snd (handleConnection iter c)) = Returned"
    by (simp_all add: hc Close_def)
  from writeAll_prefix [of ?resp c] obtain n where
    n: "1 \<le> n" "fst (writeAll c ?resp) = c\<lparr>written := written c @ take n ?resp\<rparr>"
    by auto
  have 2: "\<exists>n\<ge>1. written (fst (handleConnection iter c)) = written c @ take n ?resp"
    using n by (intro exI [of _ n]) (simp add: hc ws Close_def)
  have 3: "written (fst (handleConnection iter c)) = written c @ ?resp"
    if "\<forall>k. write_err c k = None"
  proof -
    from that have "writeAll c ?resp = (c\<lparr>written := written c @ ?resp\<rparr>, None)"
      by (intro writeAll_ok) simp
    then show ?thesis by (simp only: hc ws Close_def) simp
  qed
  from 1 2 3 show ?thesis by blast
qed

theorem handleConnection_error_response_witness:
  "fst (parseRequest (peer ''GET /'')) = Err (IOError EOF)
   \<and> fst (parseRequest (peer (''GET /'' @ [CR, LF, CR, LF]))) = Err MalformedRequestLine
   \<and> rangeOf [''Content-Type'' \<mapsto> ''text/plain''] (plainIter [''Content-Type'' \<mapsto> ''text/plain''])
   \<and> (\<forall>k. write_err (peer ''GET /'') k = None)
   \<and> closed (fst (handleConnection plainIter (peer ''GET /'')))
   \<and> written (fst (handleConnection plainIter (peer (''GET /'' @ [CR, LF, CR, LF])))) =
       [''HTTP/1.1 400 Bad Request'' @ [CR, LF], ''Content-Type: text/plain'' @ [CR, LF],
        [CR, LF], ''Bad Request'']"
proof -
  have p1: "fst (parseRequest (peer ''GET /'')) = Err (IOError EOF)"
    by (simp add: parseRequest_def peer_def NewReader_def ReadString_def)
  have "case fst (parseRequest (peer (''GET /'' @ [CR, LF, CR, LF]))) of
          Err MalformedRequestLine \<Rightarrow> True | _ \<Rightarrow> False"
    by code_simp
  then have p2: "fst (parseRequest (peer (''GET /'' @ [CR, LF, CR, LF]))) = Err MalformedRequestLine"
    by (simp split: result.splits error.splits)
  have it: "rangeOf [''Content-Type'' \<mapsto> ''text/plain''] (plainIter [''Content-Type'' \<mapsto> ''text/plain''])"
    by (simp add: rangeOf_def plainIter_def)
  have w: "\<forall>k. write_err (peer ''GET /'') k = None" "\<forall>k. write_err (peer (''GET /'' @ [CR, LF, CR, LF])) k = None"
     "written (peer (''GET /'' @ [CR, LF, CR, LF])) = []"
    by (simp_all add: peer_def)
  from handleConnection_error_response [where iter = plainIter, OF p1 it]
    handleConnection_error_response [where iter = plainIter, OF p2 it]
    p1 p2 it w show ?thesis
    by simp
qed

section \<open>The request parser\<close>

subsection \<open>Reading the body\<close>

text \<open>
  What lines 112 to 126 do with a \<open>Content-Length\<close> header, by the value \<open>Atoi\<close>
  gives: within the capacity of the pooled buffer exactly that many bytes are read, and a
  stream that ends before gives the error of \<open>ReadFull\<close>; outside of it the slice
  expression panics; a value \<open>Atoi\<close> rejects gives "invalid Content-Length".
\<close>

lemma readBody_within_capacity:
  assumes "headers ''Content-Length'' = Some v" and "Atoi v = Some len"
    and "0 \<le> len" and "len \<le> 4096"
  shows "readBody reader headers =
           (if nat len \<le> length (pending reader) then Ok (take (nat len) (pending reader))
            else if pending reader \<noteq> [] \<and> fail reader = EOF then Err (IOError ErrUnexpectedEOF)
            else Err (IOError (fail reader)),
            [Get, Put])"
  using assms by (simp add: readBody_def bufferCap_def ReadFull_def)

lemma readBody_outside_capacity:
  assumes "headers ''Content-Length'' = Some v" and "Atoi v = Some len"
    and "len < 0 \<or> 4096 < len"
  shows "readBody reader headers = (Panic, [Get, Put])"
  using assms by (auto simp: readBody_def bufferCap_def)

lemma readBody_invalid_length:
  assumes "headers ''Content-Length'' = Some v" and "Atoi v = None"
  shows "readBody reader headers = (Err InvalidContentLength, [])"
  using assms by (simp add: readBody_def)

lemma readBody_pool: "snd (readBody reader headers) = [] \<or> snd (readBody reader headers) = [Get, Put]"
  by (simp add: readBody_def split: option.splits)

lemma parseRequest_steps:
  assumes "ReadString (NewReader c) LF = Inr (requestLine, r1)"
    and "length (Split (TrimSpace requestLine) '' '') = 3"
    and "readHeaders r1 Map.empty = Inr (headers, r2)"
  shows "parseRequest c =
     (case readBody r2 headers of
        (Ok body, pool) \<Rightarrow>
          (Ok \<lparr>Method = Split (TrimSpace requestLine) '' '' ! 0,
               URL = Split (TrimSpace requestLine) '' '' ! 1,
               Request.Headers = headers, Request.Body = body\<rparr>, pool)
      | (Err err, pool) \<Rightarrow> (Err err, pool)
      | (Panic, pool) \<Rightarrow> (Panic, pool))"
  using assms by (auto simp: parseRequest_def Let_def split: prod.splits result.splits)

subsection \<open>Line by line\<close>

lemma ReadString_line:
  assumes "LF \<notin> set l"
  shows "ReadString \<lparr>pending = l @ LF # rest, fail = e\<rparr> LF =
           Inr (l @ [LF], \<lparr>pending = rest, fail = e\<rparr>)"
proof -
  from assms have "takeWhile (\<lambda>c. c \<noteq> LF) (l @ LF # rest) = l"
    by (induction l) auto
  moreover from assms have "dropWhile (\<lambda>c. c \<noteq> LF) (l @ LF # rest) = LF # rest"
    by (induction l) auto
  ultimately show ?thesis
    by (simp add: ReadString_def)
qed

lemma readHeaders_blank:
  assumes "LF \<notin> set l" and "TrimSpace (l @ [LF]) = []"
  shows "readHeaders \<lparr>pending = l @ LF # rest, fail = e\<rparr> hs = Inr (hs, \<lparr>pending = rest, fail = e\<rparr>)"
  using assms by (subst readHeaders.simps) (simp add: ReadString_line)

lemma readHeaders_header:
  assumes "LF \<notin> set l" and "TrimSpace (l @ [LF]) \<noteq> []"
    and "SplitN (TrimSpace (l @ [LF])) '': '' 2 = [k, v]"
  shows "readHeaders \<lparr>pending = l @ LF # rest, fail = e\<rparr> hs =
         readHeaders \<lparr>pending = rest, fail = e\<rparr> (hs(k \<mapsto> v))"
  using assms by (subst readHeaders.simps) (simp add: ReadString_line)


lemma post_line:
  "TrimSpace (''POST / HTTP/1.1'' @ [CR, LF]) = ''POST / HTTP/1.1''"
  "Split ''POST / HTTP/1.1'' '' '' = [''POST'', ''/'', ''HTTP/1.1'']"
  "TrimSpace [CR, LF] = []"
  by code_simp+

lemma post_parse:
  assumes "LF \<notin> set l" and "TrimSpace (l @ [LF]) \<noteq> []"
    and "SplitN (TrimSpace (l @ [LF])) '': '' 2 = [''Content-Length'', v]"
  shows "parseRequest (peer (''POST / HTTP/1.1'' @ [CR, LF] @ l @ [LF] @ [CR, LF] @ body)) =
     (case readBody \<lparr>pending = body, fail = EOF\<rparr> [''Content-Length'' \<mapsto> v] of
        (Ok b, pool) \<Rightarrow>
          (Ok \<lparr>Method = ''POST'', URL = ''/'',
               Request.Headers = [''Content-Length'' \<mapsto> v], Request.Body = b\<rparr>, pool)
      | (Err err, pool) \<Rightarrow> (Err err, pool)
      | (Panic, pool) \<Rightarrow> (Panic, pool))"
proof -
  let ?c = "peer (''POST / HTTP/1.1'' @ [CR, LF] @ l @ [LF] @ [CR, LF] @ body)"
  let ?r1 = "\<lparr>pending = l @ LF # [CR] @ LF # body, fail = EOF\<rparr>"
  have 1: "ReadString (NewReader ?c) LF = Inr (''POST / HTTP/1.1'' @ [CR, LF], ?r1)"
    using ReadString_line [of "''POST / HTTP/1.1'' @ [CR]" "l @ LF # [CR] @ LF # body" EOF]
    by (simp add: NewReader_def peer_def)
  have 2: "length (Split (TrimSpace (''POST / HTTP/1.1'' @ [CR, LF])) '' '') = 3"
    using post_line by simp
  have "readHeaders ?r1 Map.empty =
          readHeaders \<lparr>pending = [CR] @ LF # body, fail = EOF\<rparr> [''Content-Length'' \<mapsto> v]"
    using assms by (rule readHeaders_header)
  also have "\<dots> = Inr ([''Content-Length'' \<mapsto> v], \<lparr>pending = body, fail = EOF\<rparr>)"
    using post_line(3) by (intro readHeaders_blank) simp_all
  finally have 3: "readHeaders ?r1 Map.empty = Inr ([''Content-Length'' \<mapsto> v], \<lparr>pending = body, fail = EOF\<rparr>)" .
  show ?thesis
    unfolding parseRequest_steps [OF 1 2 3] using post_line by (simp split: prod.splits result.splits)
qed


lemma len_hdr:
  "TrimSpace (''Content-Length: 4097'' @ [CR] @ [LF]) = ''Content-Length: 4097''"
  "SplitN ''Content-Length: 4097'' '': '' 2 = [''Content-Length'', ''4097'']"
  "Atoi ''4097'' = Some 4097"
  "TrimSpace (''Content-Length: -1'' @ [CR] @ [LF]) = ''Content-Length: -1''"
  "SplitN ''Content-Length: -1'' '': '' 2 = [''Content-Length'', ''-1'']"
  "Atoi ''-1'' = Some (- 1)"
  "TrimSpace (''Content-Length: 5'' @ [CR] @ [LF]) = ''Content-Length: 5''"
  "SplitN ''Content-Length: 5'' '': '' 2 = [''Content-Length'', ''5'']"
  "Atoi ''5'' = Some 5"
  "TrimSpace (''Content-Length: abc'' @ [CR] @ [LF]) = ''Content-Length: abc''"
  "SplitN ''Content-Length: abc'' '': '' 2 = [''Content-Length'', ''abc'']"
  "Atoi ''abc'' = None"
  by code_simp+

text \<open>
  Claim C1 (the code departs from it). The claim lets \<open>parseRequest\<close> read exactly \<open>L\<close>
  body bytes for every declared length \<open>L\<close>, also beyond the capacity 4096 of the pooled
  buffer. On a request that declares 4097 bytes and sends them, \<open>parseRequest\<close> panics at
  \<open>bodyBuffer[:length]\<close> instead of returning the body (\<open>readBody_within_capacity\<close> has
  the behaviour the claim describes for lengths from 0 to 4096).
\<close>

theorem parseRequest_body_over_capacity:
  "parseRequest (peer (''POST / HTTP/1.1'' @ [CR, LF] @ ''Content-Length: 4097'' @ [CR, LF] @ [CR, LF] @
                       replicate 4097 (CHR ''a''))) = (Panic, [Get, Put])"
proof -
  have "parseRequest (peer (''POST / HTTP/1.1'' @ [CR, LF] @ (''Content-Length: 4097'' @ [CR]) @ [LF] @ [CR, LF] @
                       replicate 4097 (CHR ''a''))) = (Panic, [Get, Put])"
    using len_hdr
    by (subst post_parse [where v = "''4097''"])
       (simp_all add: readBody_outside_capacity [where v = "''4097''" and len = 4097])
  then show ?thesis by simp
qed

text \<open>
  Claim C2 (the code departs from it). The claim lets a negative \<open>Content-Length\<close> end in
  the error "invalid Content-Length", never in a panic. \<open>Atoi\<close> accepts \<open>-1\<close>, and the
  slice expression \<open>bodyBuffer[:-1]\<close> panics (\<open>readBody_invalid_length\<close> has the
  behaviour the claim describes for the values \<open>Atoi\<close> rejects, such as \<open>abc\<close>).
\<close>

theorem parseRequest_negative_length:
  "parseRequest (peer (''POST / HTTP/1.1'' @ [CR, LF] @ ''Content-Length: -1'' @ [CR, LF] @ [CR, LF])) =
     (Panic, [Get, Put])"
proof -
  have "parseRequest (peer (''POST / HTTP/1.1'' @ [CR, LF] @ (''Content-Length: -1'' @ [CR]) @ [LF] @ [CR, LF] @ [])) =
     (Panic, [Get, Put])"
    using len_hdr
    by (subst post_parse [where v = "''-1''"])
       (simp_all add: readBody_outside_capacity [where v = "''-1''" and len = "- 1"])
  then show ?thesis by simp
qed

subsection \<open>The buffer pool\<close>

text \<open>
  Claim C8. In every execution of \<open>parseRequest\<close> the pool is either not used at all, or
  one buffer is taken and the same buffer is put back once, after it, whichever way the
  function is left. The second case is the one of a \<open>Content-Length\<close> header that is
  present and that \<open>Atoi\<close> accepts.
\<close>

theorem pool_buffer_released_once:
  "(snd (parseRequest c) = [] \<or> snd (parseRequest c) = [Get, Put])
   \<and> (\<forall>requestLine r1 headers r2 v len.
         ReadString (NewReader c) LF = Inr (requestLine, r1)
         \<and> length (Split (TrimSpace requestLine) '' '') = 3
         \<and> readHeaders r1 Map.empty = Inr (headers, r2)
         \<and> headers ''Content-Length'' = Some v \<and> Atoi v = Some len \<longrightarrow>
         snd (parseRequest c) = [Get, Put])"
proof -
  have 1: "snd (parseRequest c) = [] \<or> snd (parseRequest c) = [Get, Put]"
  proof (cases "ReadString (NewReader c) LF")
    case (Inl e)
    then show ?thesis by (simp add: parseRequest_def)
  next
    case (Inr a)
    obtain requestLine r1 where a: "a = (requestLine, r1)" by (cases a)
    show ?thesis
    proof (cases "length (Split (TrimSpace requestLine) '' '') = 3")
      case False
      with Inr a show ?thesis by (simp add: parseRequest_def)
    next
      case True
      show ?thesis
      proof (cases "readHeaders r1 Map.empty")
        case (Inl e)
        with Inr a True show ?thesis by (simp add: parseRequest_def)
      next
        case (Inr b)
        obtain headers r2 where b: "b = (headers, r2)" by (cases b)
        from parseRequest_steps [OF \<open>ReadString (NewReader c) LF = Inr a\<close> [unfolded a] True Inr [unfolded b]]
          readBody_pool [of r2 headers]
        show ?thesis
          by (auto split: prod.splits result.splits)
      qed
    qed
  qed
  have 2: "snd (parseRequest c) = [Get, Put]"
    if "ReadString (NewReader c) LF = Inr (requestLine, r1)"
      and "length (Split (TrimSpace requestLine) '' '') = 3"
      and "readHeaders r1 Map.empty = Inr (headers, r2)"
      and "headers ''Content-Length'' = Some v" and "Atoi v = Some len"
    for requestLine r1 headers r2 v len
  proof -
    have "snd (readBody r2 headers) = [Get, Put]"
      using that(4,5) by (simp add: readBody_def)
    with parseRequest_steps [OF that(1,2,3)] show ?thesis
      by (auto split: prod.splits result.splits)
  qed
  from 1 2 show ?thesis by blast
qed

theorem pool_buffer_released_once_witness:
  "ReadString (NewReader (peer (''POST / HTTP/1.1'' @ [CR, LF] @ ''Content-Length: 5'' @ [CR, LF] @ [CR, LF] @ ''abc''))) LF =
     Inr (''POST / HTTP/1.1'' @ [CR, LF],
          \<lparr>pending = ''Content-Length: 5'' @ [CR, LF] @ [CR, LF] @ ''abc'', fail = EOF\<rparr>)
   \<and> length (Split (TrimSpace (''POST / HTTP/1.1'' @ [CR, LF])) '' '') = 3
   \<and> readHeaders \<lparr>pending = ''Content-Length: 5'' @ [CR, LF] @ [CR, LF] @ ''abc'', fail = EOF\<rparr> Map.empty =
       Inr ([''Content-Length'' \<mapsto> ''5''], \<lparr>pending = ''abc'', fail = EOF\<rparr>)
   \<and> Atoi ''5'' = Some 5
   \<and> parseRequest (peer (''POST / HTTP/1.1'' @ [CR, LF] @ ''Content-Length: 5'' @ [CR, LF] @ [CR, LF] @ ''abc'')) =
       (Err (IOError ErrUnexpectedEOF), [Get, Put])"
proof -
  let ?c = "peer (''POST / HTTP/1.1'' @ [CR, LF] @ ''Content-Length: 5'' @ [CR, LF] @ [CR, LF] @ ''abc'')"
  let ?r1 = "\<lparr>pending = ''Content-Length: 5'' @ [CR, LF] @ [CR, LF] @ ''abc'', fail = EOF\<rparr>"
  let ?r2 = "\<lparr>pending = ''abc'', fail = EOF\<rparr>"
  have 1: "ReadString (NewReader ?c) LF = Inr (''POST / HTTP/1.1'' @ [CR, LF], ?r1)"
    by (simp add: NewReader_def peer_def ReadString_def)
  have 2: "length (Split (TrimSpace (''POST / HTTP/1.1'' @ [CR, LF])) '' '') = 3"
    using post_line by simp
  have "readHeaders \<lparr>pending = (''Content-Length: 5'' @ [CR]) @ LF # [CR] @ LF # ''abc'', fail = EOF\<rparr> Map.empty =
          readHeaders \<lparr>pending = [CR] @ LF # ''abc'', fail = EOF\<rparr> [''Content-Length'' \<mapsto> ''5'']"
    using len_hdr by (intro readHeaders_header) simp_all
  also have "\<dots> = Inr ([''Content-Length'' \<mapsto> ''5''], ?r2)"
    using post_line(3) by (intro readHeaders_blank) simp_all
  finally have 3: "readHeaders ?r1 Map.empty = Inr ([''Content-Length'' \<mapsto> ''5''], ?r2)"
    by simp
  have 4: "Atoi ''5'' = Some 5" by (rule len_hdr)
  have 5: "[''Content-Length'' \<mapsto> ''5''] ''Content-Length'' = Some ''5''" by simp
  from pool_buffer_released_once [of ?c] 1 2 3 4 5
  have pool: "snd (parseRequest ?c) = [Get, Put]"
    by blast
  have "readBody ?r2 [''Content-Length'' \<mapsto> ''5''] = (Err (IOError ErrUnexpectedEOF), [Get, Put])"
    using readBody_within_capacity [where reader = ?r2 and v = "''5''" and len = 5
        and headers = "[''Content-Length'' \<mapsto> ''5'']"] 4 by simp
  with parseRequest_steps [OF 1 2 3] have "fst (parseRequest ?c) = Err (IOError ErrUnexpectedEOF)"
    by simp
  with pool have "parseRequest ?c = (Err (IOError ErrUnexpectedEOF), [Get, Put])"
    by (simp add: prod_eq_iff)
  with 1 2 3 4 show ?thesis by blast
qed


subsection \<open>The request line\<close>





subsection \<open>White space around a line\<close>

text \<open>
  The empty string, and a string that starts with an ASCII white-space byte.
\<close>

lemma leadingSpace_Nil: "leadingSpace [] = 0"
  by (simp add: leadingSpace_def spaceRunes_def)

lemma trailingSpace_Nil: "trailingSpace [] = 0"
  by (simp add: trailingSpace_def spaceRunes_def)

lemma TrimLeft_Nil: "TrimLeft [] = []"
  by (subst TrimLeft.simps) (simp add: leadingSpace_Nil)

lemma TrimRight_Nil: "TrimRight [] = []"
  by (subst TrimRight.simps) (simp add: trailingSpace_Nil)

lemma leadingSpace_ascii: "asciiSpace c \<Longrightarrow> leadingSpace (c # s) = 1"
  unfolding asciiSpace_def
  by (elim disjE) (simp_all add: leadingSpace_def spaceRunes_def)

text \<open>
  \<open>TrimSpace\<close> does not see white space added before or after a string: any sequence
  of encoded white-space runes, ASCII or not.
\<close>

lemma spaceRunes_nonempty: "e \<in> set spaceRunes \<Longrightarrow> e \<noteq> []"
  by (auto simp: spaceRunes_def)

lemma leadingSpace_rune: "e \<in> set spaceRunes \<Longrightarrow> leadingSpace (e @ s) = length e"
  unfolding spaceRunes_def set_simps insert_iff empty_iff
  by (elim disjE FalseE) (simp_all add: leadingSpace_def spaceRunes_def)

lemma trailingSpace_rune: "e \<in> set spaceRunes \<Longrightarrow> trailingSpace (s @ e) = length e"
  unfolding spaceRunes_def set_simps insert_iff empty_iff
  by (elim disjE FalseE) (simp_all add: trailingSpace_def spaceRunes_def suffix_to_prefix)

lemma spaceRunes_head:
  "e \<in> set spaceRunes \<Longrightarrow>
   hd e \<in> {CHR 0x09, CHR 0x0A, CHR 0x0B, CHR 0x0C, CHR 0x0D, CHR 0x20, CHR 0xC2, CHR 0xE1, CHR 0xE2, CHR 0xE3}"
  unfolding spaceRunes_def set_simps insert_iff empty_iff
  by (elim disjE FalseE) simp_all

lemma spaceRunes_continuation:
  "e \<in> set spaceRunes \<Longrightarrow> x \<in> set (tl e) \<Longrightarrow>
   x \<notin> {CHR 0x09, CHR 0x0A, CHR 0x0B, CHR 0x0C, CHR 0x0D, CHR 0x20, CHR 0xC2, CHR 0xE1, CHR 0xE2, CHR 0xE3}"
  unfolding spaceRunes_def set_simps insert_iff empty_iff
  by (elim disjE FalseE) auto


lemma TrimLeft_runes: "set ws \<subseteq> set spaceRunes \<Longrightarrow> TrimLeft (concat ws @ s) = TrimLeft s"
proof (induction ws)
  case Nil
  then show ?case by simp
next
  case (Cons e ws)
  then have e: "e \<in> set spaceRunes" by simp
  have "leadingSpace (e @ concat ws @ s) = length e"
    using e by (rule leadingSpace_rune)
  moreover have "length e \<noteq> 0"
    using spaceRunes_nonempty [OF e] by simp
  ultimately have "TrimLeft (e @ concat ws @ s) = TrimLeft (concat ws @ s)"
    by (subst TrimLeft.simps) simp
  with Cons show ?case by simp
qed

lemma TrimRight_runes: "set ws \<subseteq> set spaceRunes \<Longrightarrow> TrimRight (s @ concat ws) = TrimRight s"
proof (induction ws rule: rev_induct)
  case Nil
  then show ?case by simp
next
  case (snoc e ws)
  then have e: "e \<in> set spaceRunes" by simp
  have "trailingSpace ((s @ concat ws) @ e) = length e"
    using e by (rule trailingSpace_rune)
  moreover have "length e \<noteq> 0"
    using spaceRunes_nonempty [OF e] by simp
  ultimately have "TrimRight ((s @ concat ws) @ e) = TrimRight (s @ concat ws)"
    by (subst TrimRight.simps) simp
  with snoc show ?case by simp
qed

lemma concat_runes_head:
  assumes "set ws \<subseteq> set spaceRunes" and "concat ws = u # us"
  shows "u \<in> {CHR 0x09, CHR 0x0A, CHR 0x0B, CHR 0x0C, CHR 0x0D, CHR 0x20, CHR 0xC2, CHR 0xE1, CHR 0xE2, CHR 0xE3}"
proof (cases ws)
  case Nil
  with assms show ?thesis by simp
next
  case (Cons e ws')
  with assms have e: "e \<in> set spaceRunes" by simp
  with spaceRunes_nonempty [OF e] Cons assms(2) have "hd e = u" by (cases e) auto
  with spaceRunes_head [OF e] show ?thesis by simp
qed

lemma prefix_rune_append:
  assumes e: "e \<in> set spaceRunes" and s: "s \<noteq> []" and ws: "set ws \<subseteq> set spaceRunes"
  shows "prefix e (s @ concat ws) \<longleftrightarrow> prefix e s"
proof
  assume "prefix e (s @ concat ws)"
  then consider "prefix e s" | us where "e = s @ us" "prefix us (concat ws)"
    by (auto simp: prefix_append)
  then show "prefix e s"
  proof cases
    case 1
    then show ?thesis .
  next
    case 2
    show ?thesis
    proof (cases us)
      case Nil
      with 2 show ?thesis by simp
    next
      case (Cons u us')
      with 2 obtain rest where "concat ws = u # rest" by (auto simp: prefix_def)
      from concat_runes_head [OF ws this]
      have a: "u \<in> {CHR 0x09, CHR 0x0A, CHR 0x0B, CHR 0x0C, CHR 0x0D, CHR 0x20, CHR 0xC2, CHR 0xE1, CHR 0xE2, CHR 0xE3}" .
      from 2 Cons s have "u \<in> set (tl e)" by (cases s) auto
      then have b: "u \<notin> {CHR 0x09, CHR 0x0A, CHR 0x0B, CHR 0x0C, CHR 0x0D, CHR 0x20, CHR 0xC2, CHR 0xE1, CHR 0xE2, CHR 0xE3}"
        by (rule spaceRunes_continuation [OF e])
      from b a show ?thesis by (rule notE)
    qed
  qed
next
  assume "prefix e s"
  then show "prefix e (s @ concat ws)" by (rule prefix_prefix)
qed

lemma leadingSpace_append_runes:
  assumes "s \<noteq> []" and "set ws \<subseteq> set spaceRunes"
  shows "leadingSpace (s @ concat ws) = leadingSpace s"
proof -
  have "find (\<lambda>e. prefix e (s @ concat ws)) spaceRunes = find (\<lambda>e. prefix e s) spaceRunes"
    using assms by (intro find_cong) (auto simp: prefix_rune_append)
  then show ?thesis by (simp add: leadingSpace_def)
qed

lemma TrimLeft_append_runes:
  "set ws \<subseteq> set spaceRunes \<Longrightarrow>
   TrimLeft (s @ concat ws) = (if TrimLeft s = [] then [] else TrimLeft s @ concat ws)"
proof (induction s rule: TrimLeft.induct)
  case (1 s)
  show ?case
  proof (cases "s = []")
    case True
    with "1.prems" TrimLeft_runes [of ws "[]"] show ?thesis
      by (simp add: TrimLeft_Nil)
  next
    case False
    note ls = leadingSpace_append_runes [OF False "1.prems"]
    show ?thesis
    proof (cases "leadingSpace s = 0")
      case True
      with ls False show ?thesis
        by (subst TrimLeft.simps, subst (2 3) TrimLeft.simps) simp
    next
      case nz: False
      have "TrimLeft (s @ concat ws) = TrimLeft (drop (leadingSpace s) s @ concat ws)"
        using ls nz leadingSpace_le [of s] by (subst TrimLeft.simps) simp
      also have "\<dots> = (if TrimLeft (drop (leadingSpace s) s) = [] then []
                        else TrimLeft (drop (leadingSpace s) s) @ concat ws)"
        using "1.IH" [OF nz "1.prems"] .
      also have "TrimLeft (drop (leadingSpace s) s) = TrimLeft s"
        using nz by (subst (2) TrimLeft.simps) simp
      finally show ?thesis .
    qed
  qed
qed

lemma TrimSpace_runes:
  assumes w1: "set ws1 \<subseteq> set spaceRunes" and w2: "set ws2 \<subseteq> set spaceRunes"
  shows "TrimSpace (concat ws1 @ s @ concat ws2) = TrimSpace s"
proof -
  have l1: "TrimLeft (concat ws1 @ s @ concat ws2) = TrimLeft (s @ concat ws2)"
    using w1 by (rule TrimLeft_runes)
  have l2: "TrimLeft (s @ concat ws2) = (if TrimLeft s = [] then [] else TrimLeft s @ concat ws2)"
    using w2 by (rule TrimLeft_append_runes)
  show ?thesis
  proof (cases "TrimLeft s = []")
    case True
    then have "TrimLeft (concat ws1 @ s @ concat ws2) = TrimLeft s"
      unfolding l1 l2 by (simp only: if_True simp_thms)
    then show ?thesis by (simp only: TrimSpace_def)
  next
    case False
    then have "TrimLeft (concat ws1 @ s @ concat ws2) = TrimLeft s @ concat ws2"
      unfolding l1 l2 by (simp only: if_False simp_thms)
    then show ?thesis
      by (simp only: TrimSpace_def TrimRight_runes [OF w2])
  qed
qed

lemma TrimSpace_runes_line:
  assumes w1: "set ws1 \<subseteq> set spaceRunes" and w2: "set ws2 \<subseteq> set spaceRunes"
  shows "TrimSpace (concat ws1 @ l @ concat ws2 @ [LF]) = TrimSpace l"
proof -
  have "set (ws2 @ [[LF]]) \<subseteq> set spaceRunes"
    using w2 by (simp add: spaceRunes_def)
  from TrimSpace_runes [OF w1 this, of l] show ?thesis by simp
qed

subsection \<open>The header lines\<close>

lemma Index_None_iff: "Index s sep = None \<longleftrightarrow> (\<nexists>k v. s = k @ sep @ v)"
proof (induction s)
  case Nil
  then show ?case by auto
next
  case (Cons c cs)
  show ?case
  proof (cases "prefix sep (c # cs)")
    case True
    then obtain v where "c # cs = [] @ sep @ v" by (auto simp: prefix_def)
    with True show ?thesis by (metis Index.simps(2) option.distinct(1))
  next
    case False
    have "(\<exists>k v. c # cs = k @ sep @ v) \<longleftrightarrow> (\<exists>k v. cs = k @ sep @ v)"
    proof
      assume "\<exists>k v. c # cs = k @ sep @ v"
      then obtain k v where kv: "c # cs = k @ sep @ v" by blast
      show "\<exists>k v. cs = k @ sep @ v"
      proof (cases k)
        case Nil
        with kv False show ?thesis by (auto simp: prefix_def)
      next
        case (Cons a k')
        with kv show ?thesis by auto
      qed
    next
      assume "\<exists>k v. cs = k @ sep @ v"
      then obtain k v where "cs = k @ sep @ v" by blast
      then have "c # cs = (c # k) @ sep @ v" by simp
      then show "\<exists>k v. c # cs = k @ sep @ v" by blast
    qed
    with False Cons show ?thesis by simp
  qed
qed

lemma Index_Some_split: "Index s sep = Some i \<Longrightarrow> s = take i s @ sep @ drop (i + length sep) s"
proof (induction s arbitrary: i)
  case Nil
  then show ?case by (simp split: if_splits)
next
  case (Cons c cs)
  show ?case
  proof (cases "prefix sep (c # cs)")
    case True
    with Cons.prems have "i = 0" by simp
    with True show ?thesis by (auto simp: prefix_def)
  next
    case False
    with Cons.prems obtain i' where i': "Index cs sep = Some i'" "i = Suc i'" by auto
    from Cons.IH [OF i'(1)] i'(2) show ?thesis by simp
  qed
qed

lemma SplitN_two:
  "t \<noteq> [] \<Longrightarrow> SplitN t '': '' 2 = (case headerEntry t of None \<Rightarrow> [t] | Some (k, v) \<Rightarrow> [k, v])"
  by (cases t) (auto simp: SplitN_def headerEntry_def numeral_2_eq_2 split: option.splits)

lemma headerEntry_None_iff: "headerEntry t = None \<longleftrightarrow> (\<nexists>k v. t = k @ '': '' @ v)"
  using Index_None_iff [of t "'': ''"] by (auto simp: headerEntry_def split: option.splits)

lemma headerEntry_Some: "headerEntry t = Some (k, v) \<Longrightarrow> t = k @ '': '' @ v"
  using Index_Some_split [of t "'': ''"] by (auto simp: headerEntry_def split: option.splits)








subsection \<open>Padded lines\<close>

text \<open>
  What follows a run of non-blank header lines is read the same way on both sides when
  the rest is; and \<open>parseRequest\<close> reads the header section the same way when
  \<open>readHeaders\<close> does.
\<close>

lemma readHeaders_lines_cong:
  assumes ls: "\<forall>h\<in>set ls. LF \<notin> set h \<and> TrimSpace (h @ [LF]) \<noteq> []"
    and eq: "\<And>hs. readHeaders \<lparr>pending = a, fail = e\<rparr> hs = readHeaders \<lparr>pending = b, fail = e\<rparr> hs"
  shows "readHeaders \<lparr>pending = concat (map (\<lambda>h. h @ [LF]) ls) @ a, fail = e\<rparr> hs =
         readHeaders \<lparr>pending = concat (map (\<lambda>h. h @ [LF]) ls) @ b, fail = e\<rparr> hs"
  using ls
proof (induction ls arbitrary: hs)
  case Nil
  then show ?case by (simp add: eq)
next
  case (Cons h ls)
  then have h: "LF \<notin> set h" "TrimSpace (h @ [LF]) \<noteq> []" by simp_all
  let ?t = "TrimSpace (h @ [LF])"
  have r: "ReadString \<lparr>pending = h @ LF # concat (map (\<lambda>h. h @ [LF]) ls) @ x, fail = e\<rparr> LF =
           Inr (h @ [LF], \<lparr>pending = concat (map (\<lambda>h. h @ [LF]) ls) @ x, fail = e\<rparr>)" for x
    using h(1) by (rule ReadString_line)
  from Cons have IH: "readHeaders \<lparr>pending = concat (map (\<lambda>h. h @ [LF]) ls) @ a, fail = e\<rparr> hs' =
         readHeaders \<lparr>pending = concat (map (\<lambda>h. h @ [LF]) ls) @ b, fail = e\<rparr> hs'" for hs'
    by simp
  show ?case
    by (subst readHeaders.simps, subst (2) readHeaders.simps) (simp add: r h IH Let_def)
qed

lemma parseRequest_headers_cong:
  assumes rl: "LF \<notin> set rl"
    and eq: "\<And>hs. readHeaders \<lparr>pending = a, fail = read_err c\<rparr> hs = readHeaders \<lparr>pending = b, fail = read_err c\<rparr> hs"
  shows "parseRequest (c\<lparr>incoming := rl @ [LF] @ a\<rparr>) = parseRequest (c\<lparr>incoming := rl @ [LF] @ b\<rparr>)"
proof -
  have r: "ReadString (NewReader (c\<lparr>incoming := rl @ [LF] @ x\<rparr>)) LF =
            Inr (rl @ [LF], \<lparr>pending = x, fail = read_err c\<rparr>)" for x
    using ReadString_line [OF rl, of x "read_err c"] by (simp add: NewReader_def)
  show ?thesis
    unfolding parseRequest_def Let_def r sum.case prod.case eq ..
qed

text \<open>
  A line with white space before and after it: what the header loop and \<open>parseRequest\<close>
  make of it is what they make of the trimmed line.
\<close>

lemma TrimSpace_unpadded: "leadingSpace l = 0 \<Longrightarrow> trailingSpace l = 0 \<Longrightarrow> TrimSpace l = l"
  unfolding TrimSpace_def by (subst TrimLeft.simps, simp, subst TrimRight.simps, simp)

lemma readHeaders_padded_line:
  assumes w: "set ws1 \<subseteq> set spaceRunes" "set ws2 \<subseteq> set spaceRunes"
    and lf: "LF \<notin> set (concat ws1 @ l @ concat ws2)"
  shows "readHeaders \<lparr>pending = concat ws1 @ l @ concat ws2 @ [LF] @ rest, fail = e\<rparr> hs =
           (if TrimSpace l = [] then Inr (hs, \<lparr>pending = rest, fail = e\<rparr>)
            else case headerEntry (TrimSpace l) of
                   None \<Rightarrow> Inl MalformedHeaderLine
                 | Some (k, v) \<Rightarrow> readHeaders \<lparr>pending = rest, fail = e\<rparr> (hs(k \<mapsto> v)))"
proof -
  have r: "ReadString \<lparr>pending = concat ws1 @ l @ concat ws2 @ [LF] @ rest, fail = e\<rparr> LF =
            Inr (concat ws1 @ l @ concat ws2 @ [LF], \<lparr>pending = rest, fail = e\<rparr>)"
    using ReadString_line [OF lf, of rest e] by simp
  have t: "TrimSpace (concat ws1 @ l @ concat ws2 @ [LF]) = TrimSpace l"
    using w by (rule TrimSpace_runes_line)
  show ?thesis
  proof (cases "TrimSpace l = []")
    case True
    with r t show ?thesis
      by (subst readHeaders.simps) simp
  next
    case False
    with r t show ?thesis
      by (subst readHeaders.simps)
         (auto simp: SplitN_two Let_def split: option.splits)
  qed
qed

lemma parseRequest_padded_line:
  assumes w: "set ws1 \<subseteq> set spaceRunes" "set ws2 \<subseteq> set spaceRunes"
    and lf: "LF \<notin> set (concat ws1 @ l @ concat ws2)"
  shows "parseRequest (c\<lparr>incoming := concat ws1 @ l @ concat ws2 @ [LF] @ rest\<rparr>) =
     (if length (Split (TrimSpace l) '' '') \<noteq> 3 then (Err MalformedRequestLine, [])
      else case readHeaders \<lparr>pending = rest, fail = read_err c\<rparr> Map.empty of
             Inl err \<Rightarrow> (Err err, [])
           | Inr (headers, reader) \<Rightarrow>
               (case readBody reader headers of
                  (Ok body, pool) \<Rightarrow>
                    (Ok \<lparr>Method = Split (TrimSpace l) '' '' ! 0,
                         URL = Split (TrimSpace l) '' '' ! 1,
                         Request.Headers = headers, Request.Body = body\<rparr>, pool)
                | (Err err, pool) \<Rightarrow> (Err err, pool)
                | (Panic, pool) \<Rightarrow> (Panic, pool)))"
proof -
  have r: "ReadString (NewReader (c\<lparr>incoming := concat ws1 @ l @ concat ws2 @ [LF] @ rest\<rparr>)) LF =
            Inr (concat ws1 @ l @ concat ws2 @ [LF], \<lparr>pending = rest, fail = read_err c\<rparr>)"
    using ReadString_line [OF lf, of rest "read_err c"] by (simp add: NewReader_def)
  have t: "TrimSpace (concat ws1 @ l @ concat ws2 @ [LF]) = TrimSpace l"
    using w by (rule TrimSpace_runes_line)
  show ?thesis
    unfolding parseRequest_def Let_def r sum.case prod.case t ..
qed

text \<open>
  Claim C10. \<open>parseRequest\<close> trims white space on both sides of the request line and of
  every header line before it splits them, not only a carriage return at the end. Let
  \<open>ws1\<close> and \<open>ws2\<close> be any sequences of white-space runes other than the line feed
  (spaces, tabs, carriage returns, and the other runes of \<open>unicode.IsSpace\<close>, such as the
  no-break space), written in front of and behind a line \<open>l\<close>. Then:
  \<^item> the padded request line parses as the unpadded one does, and so does a padded line
    that follows the request line and any number of non-blank header lines;
  \<^item> a line of white space only ends the header section, as the empty line does;
  \<^item> the padded request line is rejected or accepted by the tokens of the trimmed line,
    and a request that is returned has the first and the second of them as method and
    target;
  \<^item> the padded header line ends the header section when the trimmed line is empty, is a
    malformed header line when the trimmed line holds no colon-space, and is stored
    under the name and with the value of the trimmed line otherwise;
  \<^item> a line without white space at either end is its own trimmed line, so that a request
    made of such a request line \<open>l\<close> with three tokens and such a header line \<open>hl\<close>, both
    padded, and a line of white space, parses to the method and target of \<open>l\<close> and the
    one header of \<open>hl\<close>.
\<close>

theorem whitespace_around_lines_ignored:
  assumes w1: "set ws1 \<subseteq> set spaceRunes" and w2: "set ws2 \<subseteq> set spaceRunes"
    and pad: "LF \<notin> set (concat ws1 @ concat ws2)" and l: "LF \<notin> set l"
  shows "parseRequest (c\<lparr>incoming := concat ws1 @ l @ concat ws2 @ [LF] @ rest\<rparr>) =
         parseRequest (c\<lparr>incoming := l @ [LF] @ rest\<rparr>)
       \<and> (LF \<notin> set rl \<and> (\<forall>h\<in>set hls. LF \<notin> set h \<and> TrimSpace (h @ [LF]) \<noteq> []) \<longrightarrow>
            parseRequest (c\<lparr>incoming := rl @ [LF] @ concat (map (\<lambda>h. h @ [LF]) hls) @
                                         concat ws1 @ l @ concat ws2 @ [LF] @ rest\<rparr>) =
            parseRequest (c\<lparr>incoming := rl @ [LF] @ concat (map (\<lambda>h. h @ [LF]) hls) @
                                         l @ [LF] @ rest\<rparr>))
       \<and> readHeaders \<lparr>pending = concat ws1 @ [LF] @ rest, fail = e\<rparr> headers =
           Inr (headers, \<lparr>pending = rest, fail = e\<rparr>)
       \<and> readHeaders \<lparr>pending = [LF] @ rest, fail = e\<rparr> headers =
           Inr (headers, \<lparr>pending = rest, fail = e\<rparr>)
       \<and> parseRequest (c\<lparr>incoming := concat ws1 @ l @ concat ws2 @ [LF] @ rest\<rparr>) =
           (if length (Split (TrimSpace l) '' '') \<noteq> 3 then (Err MalformedRequestLine, [])
            else case readHeaders \<lparr>pending = rest, fail = read_err c\<rparr> Map.empty of
                   Inl err \<Rightarrow> (Err err, [])
                 | Inr (hs, reader) \<Rightarrow>
                     (case readBody reader hs of
                        (Ok body, pool) \<Rightarrow>
                          (Ok \<lparr>Method = Split (TrimSpace l) '' '' ! 0,
                               URL = Split (TrimSpace l) '' '' ! 1,
                               Request.Headers = hs, Request.Body = body\<rparr>, pool)
                      | (Err err, pool) \<Rightarrow> (Err err, pool)
                      | (Panic, pool) \<Rightarrow> (Panic, pool)))
       \<and> readHeaders \<lparr>pending = concat ws1 @ l @ concat ws2 @ [LF] @ rest, fail = e\<rparr> headers =
           (if TrimSpace l = [] then Inr (headers, \<lparr>pending = rest, fail = e\<rparr>)
            else case headerEntry (TrimSpace l) of
                   None \<Rightarrow> Inl MalformedHeaderLine
                 | Some (k, v) \<Rightarrow> readHeaders \<lparr>pending = rest, fail = e\<rparr> (headers(k \<mapsto> v)))
       \<and> (leadingSpace l = 0 \<and> trailingSpace l = 0 \<longrightarrow> TrimSpace l = l)
       \<and> (LF \<notin> set hl \<and> leadingSpace l = 0 \<and> trailingSpace l = 0
            \<and> leadingSpace hl = 0 \<and> trailingSpace hl = 0
            \<and> Split l '' '' = [m, u, v] \<and> headerEntry hl = Some (name, val)
            \<and> name \<noteq> ''Content-Length'' \<longrightarrow>
            parseRequest (c\<lparr>incoming := concat ws1 @ l @ concat ws2 @ [LF] @
                                         concat ws1 @ hl @ concat ws2 @ [LF] @
                                         concat ws1 @ [LF] @ rest\<rparr>) =
              (Ok \<lparr>Method = m, URL = u, Request.Headers = [name \<mapsto> val], Request.Body = []\<rparr>, []))"
proof -
  let ?p1 = "concat ws1" and ?p2 = "concat ws2"
  have e0: "set ([] :: string list) \<subseteq> set spaceRunes" by simp
  from pad l have lf: "LF \<notin> set (?p1 @ l @ ?p2)" by auto
  from pad have lf1: "LF \<notin> set (?p1 @ [] @ concat [])" by auto
  have res: "parseRequest (c\<lparr>incoming := ?p1 @ l @ ?p2 @ [LF] @ rest\<rparr>) =
           (if length (Split (TrimSpace l) '' '') \<noteq> 3 then (Err MalformedRequestLine, [])
            else case readHeaders \<lparr>pending = rest, fail = read_err c\<rparr> Map.empty of
                   Inl err \<Rightarrow> (Err err, [])
                 | Inr (hs, reader) \<Rightarrow>
                     (case readBody reader hs of
                        (Ok body, pool) \<Rightarrow>
                          (Ok \<lparr>Method = Split (TrimSpace l) '' '' ! 0,
                               URL = Split (TrimSpace l) '' '' ! 1,
                               Request.Headers = hs, Request.Body = body\<rparr>, pool)
                      | (Err err, pool) \<Rightarrow> (Err err, pool)
                      | (Panic, pool) \<Rightarrow> (Panic, pool)))" for rest
    using w1 w2 lf by (rule parseRequest_padded_line)
  have hres: "readHeaders \<lparr>pending = ?p1 @ l @ ?p2 @ [LF] @ rest, fail = e\<rparr> headers =
           (if TrimSpace l = [] then Inr (headers, \<lparr>pending = rest, fail = e\<rparr>)
            else case headerEntry (TrimSpace l) of
                   None \<Rightarrow> Inl MalformedHeaderLine
                 | Some (k, v) \<Rightarrow> readHeaders \<lparr>pending = rest, fail = e\<rparr> (headers(k \<mapsto> v)))"
    for rest e headers
    using w1 w2 lf by (rule readHeaders_padded_line)
  have hplain: "readHeaders \<lparr>pending = l @ [LF] @ rest, fail = e\<rparr> headers =
           (if TrimSpace l = [] then Inr (headers, \<lparr>pending = rest, fail = e\<rparr>)
            else case headerEntry (TrimSpace l) of
                   None \<Rightarrow> Inl MalformedHeaderLine
                 | Some (k, v) \<Rightarrow> readHeaders \<lparr>pending = rest, fail = e\<rparr> (headers(k \<mapsto> v)))"
    for rest e headers
    using readHeaders_padded_line [OF e0 e0, where l = l and rest = rest and e = e and hs = headers] l by simp
  have nil: "TrimSpace [] = []"
    by (simp add: TrimSpace_def TrimLeft_Nil TrimRight_Nil)
  have 1: "parseRequest (c\<lparr>incoming := ?p1 @ l @ ?p2 @ [LF] @ rest\<rparr>) =
           parseRequest (c\<lparr>incoming := l @ [LF] @ rest\<rparr>)"
    using parseRequest_padded_line [OF e0 e0, where l = l and c = c and rest = rest] l
    unfolding res by simp
  have 2: "parseRequest (c\<lparr>incoming := rl @ [LF] @ concat (map (\<lambda>h. h @ [LF]) hls) @
                                         ?p1 @ l @ ?p2 @ [LF] @ rest\<rparr>) =
            parseRequest (c\<lparr>incoming := rl @ [LF] @ concat (map (\<lambda>h. h @ [LF]) hls) @
                                         l @ [LF] @ rest\<rparr>)"
    if rl: "LF \<notin> set rl" and hls: "\<forall>h\<in>set hls. LF \<notin> set h \<and> TrimSpace (h @ [LF]) \<noteq> []"
  proof (rule parseRequest_headers_cong [OF rl])
    fix hs
    show "readHeaders \<lparr>pending = concat (map (\<lambda>h. h @ [LF]) hls) @ ?p1 @ l @ ?p2 @ [LF] @ rest,
                       fail = read_err c\<rparr> hs =
          readHeaders \<lparr>pending = concat (map (\<lambda>h. h @ [LF]) hls) @ l @ [LF] @ rest,
                       fail = read_err c\<rparr> hs"
      by (intro readHeaders_lines_cong [OF hls]) (simp only: hres hplain)
  qed
  have 3: "readHeaders \<lparr>pending = ?p1 @ [LF] @ rest, fail = e\<rparr> headers =
           Inr (headers, \<lparr>pending = rest, fail = e\<rparr>)" for rest e headers
    using readHeaders_padded_line [OF w1 e0 lf1, where rest = rest and e = e and hs = headers] nil by simp
  have 4: "readHeaders \<lparr>pending = [LF] @ rest, fail = e\<rparr> headers =
           Inr (headers, \<lparr>pending = rest, fail = e\<rparr>)"
    using readHeaders_padded_line [OF e0 e0, where l = "[]" and rest = rest and e = e and hs = headers] nil by simp
  have 7: "leadingSpace l = 0 \<and> trailingSpace l = 0 \<longrightarrow> TrimSpace l = l"
    by (simp add: TrimSpace_unpadded)
  have 8: "parseRequest (c\<lparr>incoming := ?p1 @ l @ ?p2 @ [LF] @ ?p1 @ hl @ ?p2 @ [LF] @
                                         ?p1 @ [LF] @ rest\<rparr>) =
              (Ok \<lparr>Method = m, URL = u, Request.Headers = [name \<mapsto> val], Request.Body = []\<rparr>, [])"
    if hl: "LF \<notin> set hl" and tl: "leadingSpace l = 0" "trailingSpace l = 0"
      and th: "leadingSpace hl = 0" "trailingSpace hl = 0"
      and sp: "Split l '' '' = [m, u, v]" and he: "headerEntry hl = Some (name, val)"
      and ncl: "name \<noteq> ''Content-Length''"
  proof -
    from tl have tl': "TrimSpace l = l" by (rule TrimSpace_unpadded)
    from th have th': "TrimSpace hl = hl" by (rule TrimSpace_unpadded)
    from he have ne: "hl \<noteq> []" by (auto simp: headerEntry_def)
    from pad hl have lfh: "LF \<notin> set (?p1 @ hl @ ?p2)" by auto
    have "readHeaders \<lparr>pending = ?p1 @ hl @ ?p2 @ [LF] @ ?p1 @ [LF] @ rest, fail = read_err c\<rparr> Map.empty =
          readHeaders \<lparr>pending = ?p1 @ [LF] @ rest, fail = read_err c\<rparr> [name \<mapsto> val]"
      using readHeaders_padded_line [OF w1 w2 lfh, where rest = "?p1 @ [LF] @ rest" and e = "read_err c"
          and hs = Map.empty]
        th' ne he by simp
    also have "\<dots> = Inr ([name \<mapsto> val], \<lparr>pending = rest, fail = read_err c\<rparr>)"
      by (rule 3)
    finally have h: "readHeaders \<lparr>pending = ?p1 @ hl @ ?p2 @ [LF] @ ?p1 @ [LF] @ rest, fail = read_err c\<rparr> Map.empty =
          Inr ([name \<mapsto> val], \<lparr>pending = rest, fail = read_err c\<rparr>)" .
    have b: "readBody \<lparr>pending = rest, fail = read_err c\<rparr> [name \<mapsto> val] = (Ok [], [])"
      using ncl by (simp add: readBody_def)
    show ?thesis
      unfolding res h tl' sp using b by simp
  qed
  from 1 2 3 4 res hres 7 8 show ?thesis by blast
qed

lemma padded_lines:
  "leadingSpace ''GET /hello HTTP/1.1'' = 0" "trailingSpace ''GET /hello HTTP/1.1'' = 0"
  "leadingSpace ''Name: Go'' = 0" "trailingSpace ''Name: Go'' = 0"
  "Split ''GET /hello HTTP/1.1'' '' '' = [''GET'', ''/hello'', ''HTTP/1.1'']"
  "headerEntry ''Name: Go'' = Some (''Name'', ''Go'')"
  "TrimSpace ''GET /'' = ''GET /''"
  "Split ''GET /'' '' '' = [''GET'', ''/'']"
  by code_simp+

theorem whitespace_around_lines_ignored_witness:
  "set [[CHR 0x20], [CHR 0xC2, CHR 0xA0]] \<subseteq> set spaceRunes
   \<and> set [[CHR 0x09], [CR]] \<subseteq> set spaceRunes
   \<and> parseRequest (peer ([CHR 0x20, CHR 0xC2, CHR 0xA0] @ ''GET /hello HTTP/1.1'' @ [CHR 0x09, CR, LF] @
                          [CHR 0x20, CHR 0xC2, CHR 0xA0] @ ''Name: Go'' @ [CHR 0x09, CR, LF] @
                          [CHR 0x20, CHR 0xC2, CHR 0xA0, LF])) =
       (Ok \<lparr>Method = ''GET'', URL = ''/hello'', Request.Headers = [''Name'' \<mapsto> ''Go''],
            Request.Body = []\<rparr>, [])
   \<and> parseRequest (peer ([CHR 0x20, CHR 0xC2, CHR 0xA0] @ ''GET /hello HTTP/1.1'' @ [CHR 0x09, CR, LF] @
                          ''Name: Go'' @ [LF] @ [LF])) =
       parseRequest (peer (''GET /hello HTTP/1.1'' @ [LF] @ ''Name: Go'' @ [LF] @ [LF]))
   \<and> parseRequest (peer ([CHR 0x20, CHR 0xC2, CHR 0xA0] @ ''GET /'' @ [CHR 0x09, CR, LF] @ [LF])) =
       (Err MalformedRequestLine, [])
   \<and> readHeaders \<lparr>pending = [CHR 0x20, CHR 0xC2, CHR 0xA0] @ ''Name: Go'' @ [CHR 0x09, CR, LF] @
                               [LF] @ ''body'', fail = EOF\<rparr> Map.empty =
       Inr ([''Name'' \<mapsto> ''Go''], \<lparr>pending = ''body'', fail = EOF\<rparr>)
   \<and> readHeaders \<lparr>pending = [CHR 0x20, CHR 0xC2, CHR 0xA0] @ [LF] @ ''body'', fail = EOF\<rparr> Map.empty =
       Inr (Map.empty, \<lparr>pending = ''body'', fail = EOF\<rparr>)"
proof -
  let ?ws1 = "[[CHR 0x20], [CHR 0xC2, CHR 0xA0]]" and ?ws2 = "[[CHR 0x09], [CR]]"
  have w1: "set ?ws1 \<subseteq> set spaceRunes" and w2: "set ?ws2 \<subseteq> set spaceRunes"
    by (simp_all add: spaceRunes_def)
  have pad: "LF \<notin> set (concat ?ws1 @ concat ?ws2)" by simp
  have c: "(peer [])\<lparr>incoming := x\<rparr> = peer x" for x
    by (simp add: peer_def)
  have 1: "parseRequest (peer ([CHR 0x20, CHR 0xC2, CHR 0xA0] @ ''GET /hello HTTP/1.1'' @ [CHR 0x09, CR, LF] @
                          [CHR 0x20, CHR 0xC2, CHR 0xA0] @ ''Name: Go'' @ [CHR 0x09, CR, LF] @
                          [CHR 0x20, CHR 0xC2, CHR 0xA0, LF])) =
       (Ok \<lparr>Method = ''GET'', URL = ''/hello'', Request.Headers = [''Name'' \<mapsto> ''Go''],
            Request.Body = []\<rparr>, [])"
    using whitespace_around_lines_ignored [OF w1 w2 pad,
        where l = "''GET /hello HTTP/1.1''" and c = "peer []" and hl = "''Name: Go''"
        and m = "''GET''" and u = "''/hello''" and v = "''HTTP/1.1''"
        and name = "''Name''" and val = "''Go''" and rest = "[]",
        THEN conjunct2, THEN conjunct2, THEN conjunct2, THEN conjunct2, THEN conjunct2, THEN conjunct2, THEN conjunct2] padded_lines
    by (simp add: c)
  have 2: "parseRequest (peer ([CHR 0x20, CHR 0xC2, CHR 0xA0] @ ''GET /hello HTTP/1.1'' @ [CHR 0x09, CR, LF] @
                          ''Name: Go'' @ [LF] @ [LF])) =
       parseRequest (peer (''GET /hello HTTP/1.1'' @ [LF] @ ''Name: Go'' @ [LF] @ [LF]))"
    using whitespace_around_lines_ignored [OF w1 w2 pad,
        where l = "''GET /hello HTTP/1.1''" and c = "peer []" and rest = "''Name: Go'' @ [LF] @ [LF]",
        THEN conjunct1]
    by (simp add: c)
  have 3: "parseRequest (peer ([CHR 0x20, CHR 0xC2, CHR 0xA0] @ ''GET /'' @ [CHR 0x09, CR, LF] @ [LF])) =
       (Err MalformedRequestLine, [])"
    using whitespace_around_lines_ignored [OF w1 w2 pad,
        where l = "''GET /''" and c = "peer []" and rest = "[LF]",
        THEN conjunct2, THEN conjunct2, THEN conjunct2, THEN conjunct2, THEN conjunct1] padded_lines
    by (simp add: c)
  have tn: "TrimSpace ''Name: Go'' = ''Name: Go''"
    using padded_lines by (intro TrimSpace_unpadded) simp_all
  have "readHeaders \<lparr>pending = [CHR 0x20, CHR 0xC2, CHR 0xA0] @ ''Name: Go'' @ [CHR 0x09, CR, LF] @
                               [LF] @ ''body'', fail = EOF\<rparr> Map.empty =
       readHeaders \<lparr>pending = [LF] @ ''body'', fail = EOF\<rparr> [''Name'' \<mapsto> ''Go'']"
    using whitespace_around_lines_ignored [OF w1 w2 pad,
        where l = "''Name: Go''" and rest = "[LF] @ ''body''" and e = EOF and headers = Map.empty,
        THEN conjunct2, THEN conjunct2, THEN conjunct2, THEN conjunct2, THEN conjunct2, THEN conjunct1] tn padded_lines
    by simp
  also have "\<dots> = Inr ([''Name'' \<mapsto> ''Go''], \<lparr>pending = ''body'', fail = EOF\<rparr>)"
    using whitespace_around_lines_ignored [OF w1 w2 pad,
        where l = "[]" and rest = "''body''" and e = EOF and headers = "[''Name'' \<mapsto> ''Go'']",
        THEN conjunct2, THEN conjunct2, THEN conjunct2, THEN conjunct1]
    by simp
  finally have 4: "readHeaders \<lparr>pending = [CHR 0x20, CHR 0xC2, CHR 0xA0] @ ''Name: Go'' @ [CHR 0x09, CR, LF] @
                               [LF] @ ''body'', fail = EOF\<rparr> Map.empty =
       Inr ([''Name'' \<mapsto> ''Go''], \<lparr>pending = ''body'', fail = EOF\<rparr>)" .
  have 5: "readHeaders \<lparr>pending = [CHR 0x20, CHR 0xC2, CHR 0xA0] @ [LF] @ ''body'', fail = EOF\<rparr> Map.empty =
       Inr (Map.empty, \<lparr>pending = ''body'', fail = EOF\<rparr>)"
    using whitespace_around_lines_ignored [OF w1 w2 pad,
        where l = "[]" and rest = "''body''" and e = EOF and headers = Map.empty,
        THEN conjunct2, THEN conjunct2, THEN conjunct1]
    by simp
  from w1 w2 1 2 3 4 5 show ?thesis by blast
qed

section \<open>Further facts about the parser\<close>

text \<open>
  After \<open>TrimSpace\<close> a line does not start with a space, so the first of three tokens,
  the method, is never empty; the target is empty when two spaces follow each other.
\<close>

lemma leadingSpace_TrimLeft: "leadingSpace (TrimLeft s) = 0"
proof (induction s rule: TrimLeft.induct)
  case (1 s)
  show ?case
  proof (cases "leadingSpace s = 0")
    case True
    then show ?thesis by (subst TrimLeft.simps) simp
  next
    case False
    with "1.IH" show ?thesis by (subst TrimLeft.simps) simp
  qed
qed

lemma leadingSpace_zero_hd: "leadingSpace (c # s) = 0 \<Longrightarrow> c \<noteq> CHR '' ''"
  using leadingSpace_ascii [of c s] by (auto simp: asciiSpace_def)

lemma TrimRight_prefix: "prefix (TrimRight t) t"
proof (induction t rule: TrimRight.induct)
  case (1 s)
  show ?case
  proof (cases "trailingSpace s = 0")
    case True
    then show ?thesis by (subst TrimRight.simps) simp
  next
    case False
    from "1.IH" [OF False] have "prefix (TrimRight (take (length s - trailingSpace s) s)) s"
      by (rule prefix_order.trans) (rule take_is_prefix)
    with False show ?thesis by (subst TrimRight.simps) simp
  qed
qed

lemma TrimSpace_no_leading_space: "TrimSpace s = c # t \<Longrightarrow> c \<noteq> CHR '' ''"
proof -
  assume a: "TrimSpace s = c # t"
  from TrimRight_prefix [of "TrimLeft s"] a obtain t' where "TrimLeft s = c # t'"
    by (auto simp: TrimSpace_def prefix_def)
  with leadingSpace_TrimLeft [of s] show ?thesis
    by (auto dest: leadingSpace_zero_hd)
qed

lemma genSplit_first_nonempty:
  "s \<noteq> [] \<Longrightarrow> hd s \<noteq> CHR '' '' \<Longrightarrow> hd (genSplit s '' '' n) \<noteq> []"
proof (cases n)
  case 0
  assume "s \<noteq> []"
  with 0 show ?thesis by simp
next
  case (Suc n')
  assume s: "s \<noteq> []" "hd s \<noteq> CHR '' ''"
  then obtain c cs where c: "s = c # cs" "c \<noteq> CHR '' ''" by (cases s) auto
  show ?thesis
  proof (cases "Index s '' ''")
    case None
    with Suc s show ?thesis by simp
  next
    case (Some m)
    with c have "m \<noteq> 0" by (auto split: if_splits)
    with Some Suc c show ?thesis by (cases m) auto
  qed
qed

lemma method_token_nonempty:
  assumes "length (Split (TrimSpace requestLine) '' '') = 3"
  shows "Split (TrimSpace requestLine) '' '' ! 0 \<noteq> []"
proof (cases "TrimSpace requestLine")
  case Nil
  with assms show ?thesis
    by (simp add: Split_def Count.simps)
next
  case (Cons c t)
  then have "c \<noteq> CHR '' ''" by (rule TrimSpace_no_leading_space)
  with Cons have "hd (Split (TrimSpace requestLine) '' '') \<noteq> []"
    unfolding Split_def by (intro genSplit_first_nonempty) simp_all
  moreover from assms have "Split (TrimSpace requestLine) '' '' \<noteq> []" by auto
  ultimately show ?thesis by (simp add: hd_conv_nth)
qed

text \<open>
  Two requests with a body header: a value \<open>Atoi\<close> rejects, and a length within the
  capacity of the pooled buffer (the bytes after the declared length stay unread).
\<close>

lemma parseRequest_invalid_length_example:
  "parseRequest (peer (''POST / HTTP/1.1'' @ [CR, LF] @ ''Content-Length: abc'' @ [CR, LF] @ [CR, LF])) =
     (Err InvalidContentLength, [])"
proof -
  have "parseRequest (peer (''POST / HTTP/1.1'' @ [CR, LF] @ (''Content-Length: abc'' @ [CR]) @ [LF] @ [CR, LF] @ [])) =
     (Err InvalidContentLength, [])"
    using len_hdr
    by (subst post_parse [where v = "''abc''"])
       (simp_all add: readBody_invalid_length [where v = "''abc''"])
  then show ?thesis by simp
qed

lemma parseRequest_body_example:
  "parseRequest (peer (''POST / HTTP/1.1'' @ [CR, LF] @ ''Content-Length: 5'' @ [CR, LF] @ [CR, LF] @ ''hello, world'')) =
     (Ok \<lparr>Method = ''POST'', URL = ''/'', Request.Headers = [''Content-Length'' \<mapsto> ''5''],
          Request.Body = ''hello''\<rparr>, [Get, Put])"
proof -
  have "parseRequest (peer (''POST / HTTP/1.1'' @ [CR, LF] @ (''Content-Length: 5'' @ [CR]) @ [LF] @ [CR, LF] @ ''hello, world'')) =
     (Ok \<lparr>Method = ''POST'', URL = ''/'', Request.Headers = [''Content-Length'' \<mapsto> ''5''],
          Request.Body = ''hello''\<rparr>, [Get, Put])"
    using len_hdr
    by (subst post_parse [where v = "''5''"])
       (simp_all add: readBody_within_capacity [where v = "''5''" and len = 5])
  then show ?thesis by simp
qed

end
